theory Spec2Isabelle
  imports Complex_Main "HOL-Library.Word" "HOL-Library.Log_Nat"
begin

section \<open>Numbers\<close>

text \<open>
  JavaScript numbers are IEEE 754 doubles: 53 significant bits, every arithmetic operation
  and every decimal literal rounded to the nearest double, ties to the even significand.
  A number is a rational here, and \<open>fl x\<close> is the double nearest to \<open>x\<close>: with
  \<open>e = floor (log2 |x|) - 52\<close> the quotient \<open>|x| / 2^e\<close> lies in \<open>2^52 .. 2^53\<close> and is
  rounded to an integer. The exponent is not bounded, so \<open>fl\<close> is the double operation
  for magnitudes from \<open>2^-1022\<close> up to \<open>2^1024\<close>, where all the milliseconds, counts and
  sums below lie. The sum \<open>a + b\<close> of the source is \<open>fl (a + b)\<close>, and likewise for
  products and quotients; the literal \<open>0.299\<close> is \<open>fl (299 / 1000)\<close>. Sums and products
  of whole numbers below \<open>2^53\<close> are exact and written without \<open>fl\<close>.
\<close>

definition roundEven :: "rat \<Rightarrow> int" where
  "roundEven x =
     (let f = \<lfloor>x\<rfloor>; d = x - of_int f
      in if d < 1 / 2 then f else if 1 / 2 < d then f + 1 else if even f then f else f + 1)"

text \<open>\<open>floor (log2 x)\<close> for a positive \<open>x\<close>.\<close>

definition ilog2 :: "rat \<Rightarrow> int" where
  "ilog2 x = (if 1 \<le> x then bitlen \<lfloor>x\<rfloor> - 1 else - bitlen (\<lceil>1 / x\<rceil> - 1))"

definition fl :: "rat \<Rightarrow> rat" where
  "fl x =
     (if x = 0 then 0
      else (let e = ilog2 \<bar>x\<bar> - 52
            in sgn x * of_int (roundEven (\<bar>x\<bar> / 2 powi e)) * 2 powi e))"

text \<open>
  \<open>Math.floor\<close> is \<open>floor\<close>, and \<open>Math.round\<close> gives the nearest integer with halves
  rounded up, so it is \<open>\<lambda>x. floor (x + 1/2)\<close> on the exact value of its argument.
\<close>

definition math_round :: "rat \<Rightarrow> int" where
  "math_round x = \<lfloor>x + 1 / 2\<rfloor>"

section \<open>Quality controller (\<open>adaptQuality\<close>)\<close>

text \<open>
  The fields of \<open>this.performanceMonitor\<close>, and the two fields of the settings object
  that \<open>adaptQuality\<close> and \<open>convertToASCII\<close> read. The settings record is extensible:
  the spread \<open>{ ...settings }\<close> copies every other field unchanged.
\<close>

record performanceMonitor =
  frameTimes :: "rat list"
  maxSamples :: nat
  targetFrameTime :: rat

record settings =
  asciiWidth :: nat
  asciiHeight :: nat

text \<open>The monitor built by the constructor of \<open>VideoProcessor\<close>.\<close>

definition initialMonitor :: performanceMonitor where
  "initialMonitor = \<lparr>frameTimes = [], maxSamples = 10, targetFrameTime = 33\<rparr>"

text \<open>\<open>frameTimes.push(frameTime)\<close>, then one \<open>shift()\<close> when the array is too long.\<close>

definition pushSample :: "performanceMonitor \<Rightarrow> rat \<Rightarrow> performanceMonitor" where
  "pushSample pm frameTime =
     (let pushed = frameTimes pm @ [frameTime]
      in pm\<lparr>frameTimes := (if length pushed > maxSamples pm then tl pushed else pushed)\<rparr>)"

text \<open>\<open>frameTimes.reduce((a, b) => a + b, 0)\<close>: every addition is rounded.\<close>

definition jsSum :: "rat list \<Rightarrow> rat" where
  "jsSum xs = foldl (\<lambda>a b. fl (a + b)) 0 xs"

text \<open>
  The mean \<open>jsSum / length\<close> as the source computes it; on an empty array it is
  \<open>0 / 0\<close>, that is \<open>NaN\<close> (\<open>None\<close>).
\<close>

definition jsMean :: "rat list \<Rightarrow> rat option" where
  "jsMean xs = (if length xs = 0 then None else Some (fl (jsSum xs / of_nat (length xs))))"

definition avgFrameTime :: "performanceMonitor \<Rightarrow> rat option" where
  "avgFrameTime pm = jsMean (frameTimes pm)"

text \<open>
  Every comparison with \<open>NaN\<close> is false, so neither branch is taken then. For a whole
  number \<open>w\<close> of characters the doubles \<open>w * 0.8\<close> and \<open>w * 1.1\<close> have the floor of the
  exact products, which is what is written here: the doubles \<open>0.8\<close> and \<open>1.1\<close> lie just
  above the decimals, by less than one part in \<open>2^53\<close> (lemma \<open>floor_scale_double\<close>
  below, for \<open>w\<close> up to \<open>2^26\<close>).
\<close>

definition adaptQuality ::
  "performanceMonitor \<Rightarrow> rat \<Rightarrow> 'a settings_scheme \<Rightarrow> performanceMonitor \<times> 'a settings_scheme"
where
  "adaptQuality pm frameTime s =
     (let pm' = pushSample pm frameTime
      in case avgFrameTime pm' of
           None \<Rightarrow> (pm', s)
         | Some avg \<Rightarrow>
             if avg > fl (targetFrameTime pm' * (15 / 10)) then
               (pm', s\<lparr>asciiWidth := max 60 (nat \<lfloor>of_nat (asciiWidth s) * (8 / 10 :: rat)\<rfloor>),
                       asciiHeight := max 20 (nat \<lfloor>of_nat (asciiHeight s) * (8 / 10 :: rat)\<rfloor>)\<rparr>)
             else if avg < fl (targetFrameTime pm' * (5 / 10)) then
               (pm', s\<lparr>asciiWidth := min 200 (nat \<lfloor>of_nat (asciiWidth s) * (11 / 10 :: rat)\<rfloor>),
                       asciiHeight := min 80 (nat \<lfloor>of_nat (asciiHeight s) * (11 / 10 :: rat)\<rfloor>)\<rparr>)
             else (pm', s))"


section \<open>ASCII converter (\<open>convertToASCII\<close>)\<close>

text \<open>
  An \<open>ImageData\<close>: \<open>data\<close> is a \<open>Uint8ClampedArray\<close> of RGBA bytes. The canvas
  produces \<open>4 * width * height\<close> bytes; the converter itself never checks that.
\<close>

record imageData =
  data :: "8 word list"
  width :: nat
  height :: nat

definition wellFormed :: "imageData \<Rightarrow> bool" where
  "wellFormed img = (length (data img) = 4 * width img * height img)"

definition asciiChars :: string where
  "asciiChars = '' .:-=+*#%@''"

definition charCount :: int where
  "charCount = int (length asciiChars)"

text \<open>
  \<open>Math.min(charCount - 1, Math.floor(gray * (charCount - 1) / 255))\<close>. The product is a
  whole number, and the floor of the double quotient is the floor of the exact quotient,
  which is what is written here (lemma \<open>charIndex_double\<close> below, for gray levels up
  to \<open>2^22\<close>).
\<close>

definition charIndex :: "int \<Rightarrow> int" where
  "charIndex gray = min (charCount - 1) \<lfloor>(of_int (gray * (charCount - 1)) :: rat) / 255\<rfloor>"

text \<open>
  A number that may be \<open>NaN\<close> is an option, \<open>None\<close> for \<open>NaN\<close>. Reading a typed array
  past its end gives \<open>undefined\<close>, which turns a sum into \<open>NaN\<close>; nothing is thrown.
\<close>

definition sample :: "8 word list \<Rightarrow> nat \<Rightarrow> nat option" where
  "sample d i = (if i < length d then Some (unat (d ! i)) else None)"

definition addNum :: "nat option \<Rightarrow> nat option \<Rightarrow> nat option" where
  "addNum a b = (case a of None \<Rightarrow> None | Some m \<Rightarrow> (case b of None \<Rightarrow> None | Some n \<Rightarrow> Some (m + n)))"

text \<open>The running \<open>(rSum, gSum, bSum, count)\<close> of one block, and one pass of the inner body.\<close>

type_synonym blockAcc = "nat option \<times> nat option \<times> nat option \<times> nat"

fun addPixel :: "8 word list \<Rightarrow> blockAcc \<Rightarrow> nat \<Rightarrow> blockAcc" where
  "addPixel d (rSum, gSum, bSum, count) pixelIndex =
     (addNum rSum (sample d pixelIndex),
      addNum gSum (sample d (pixelIndex + 1)),
      addNum bSum (sample d (pixelIndex + 2)),
      count + 1)"

text \<open>The two inner loops \<open>for dy < stepY\<close>, \<open>for dx < stepX\<close> of the block at \<open>(x, y)\<close>.\<close>

definition blockRow :: "8 word list \<Rightarrow> nat \<Rightarrow> nat \<Rightarrow> nat \<Rightarrow> nat \<Rightarrow> blockAcc \<Rightarrow> nat \<Rightarrow> blockAcc" where
  "blockRow d width4 stepX y x acc dy =
     (let dyWidth4 = (y + dy) * width4
      in foldl (\<lambda>a dx. addPixel d a (dyWidth4 + (x + dx) * 4)) acc [0..<stepX])"

definition blockSums :: "8 word list \<Rightarrow> nat \<Rightarrow> nat \<Rightarrow> nat \<Rightarrow> nat \<Rightarrow> nat \<Rightarrow> blockAcc" where
  "blockSums d width4 stepX stepY y x =
     foldl (blockRow d width4 stepX y x) (Some 0, Some 0, Some 0, 0) [0..<stepY]"

text \<open>
  \<open>inBounds a k\<close>: after \<open>k\<close> passes of the inner body no read was past the end of
  the array, that is, no sum is \<open>NaN\<close> and \<open>count\<close> is \<open>k\<close>.
\<close>

definition inBounds :: "blockAcc \<Rightarrow> nat \<Rightarrow> bool" where
  "inBounds a k =
     (case a of (Some rSum, Some gSum, Some bSum, count) \<Rightarrow> count = k | _ \<Rightarrow> False)"

text \<open>
  \<open>Math.round((rSum * 0.299 + gSum * 0.587 + bSum * 0.114) / count)\<close>, each product, sum
  and quotient rounded to a double; \<open>NaN\<close> when a sum is \<open>NaN\<close> or the count is zero
  (\<open>0 / 0\<close>).
\<close>

definition luminance :: "nat \<Rightarrow> nat \<Rightarrow> nat \<Rightarrow> nat \<Rightarrow> rat" where
  "luminance rSum gSum bSum count =
     fl (fl (fl (fl (of_nat rSum * fl (299 / 1000)) + fl (of_nat gSum * fl (587 / 1000)))
             + fl (of_nat bSum * fl (114 / 1000)))
         / of_nat count)"

fun grayOf :: "blockAcc \<Rightarrow> int option" where
  "grayOf (Some rSum, Some gSum, Some bSum, count) =
     (if count = 0 then None else Some (math_round (luminance rSum gSum bSum count)))"
| "grayOf _ = None"

text \<open>
  \<open>line += asciiChars[charIndex]\<close>: indexing a string with \<open>NaN\<close> or out of range gives
  \<open>undefined\<close>, and appending that to a string appends the text \<open>undefined\<close>.
\<close>

definition glyph :: "int option \<Rightarrow> string" where
  "glyph g =
     (case g of
        None \<Rightarrow> ''undefined''
      | Some gray \<Rightarrow>
          (let i = charIndex gray
           in if 0 \<le> i \<and> i < charCount then [asciiChars ! nat i] else ''undefined''))"

text \<open>
  \<open>Math.max(1, Math.floor(len / n))\<close>. For \<open>n = 0\<close> the quotient is \<open>Infinity\<close> or
  \<open>NaN\<close> and so is the step (\<open>None\<close>): the loop bound \<open>len - step\<close> is then
  \<open>-Infinity\<close> or \<open>NaN\<close> and the loop body never runs. Otherwise the floor of the
  double quotient is the integer quotient written here (lemma \<open>stepOf_double\<close> below,
  for sizes up to \<open>2^26\<close>).
\<close>

definition stepOf :: "nat \<Rightarrow> nat \<Rightarrow> nat option" where
  "stepOf len n = (if n = 0 then None else Some (max 1 (len div n)))"

text \<open>
  The values of the loop variable of \<open>for (let v = v0; v <= maxV; v += step)\<close>. Every
  call passes a step from \<open>stepOf\<close>, which is at least 1.
\<close>

function positions :: "nat \<Rightarrow> nat \<Rightarrow> int \<Rightarrow> nat list" where
  "positions step v maxV =
     (if 0 < step \<and> int v \<le> maxV then v # positions step (v + step) maxV else [])"
  by pat_completeness auto
termination
  by (relation "measure (\<lambda>(step, v, maxV). nat (maxV + 1 - int v))") auto

declare positions.simps [simp del]

definition loopRange :: "nat \<Rightarrow> nat option \<Rightarrow> nat list" where
  "loopRange len step =
     (case step of None \<Rightarrow> [] | Some st \<Rightarrow> positions st 0 (int len - int st))"

text \<open>The character appended for the block whose top left pixel is \<open>(x, y)\<close>.\<close>

definition cell :: "imageData \<Rightarrow> nat \<Rightarrow> nat \<Rightarrow> nat \<Rightarrow> nat \<Rightarrow> string" where
  "cell img stepX stepY y x =
     glyph (grayOf (blockSums (data img) (width img * 4) stepX stepY y x))"

text \<open>
  The string \<open>line\<close> built by one pass of the outer loop, at row \<open>y\<close>; it stays empty
  when the inner loop does not run.
\<close>

definition lineOf :: "imageData \<Rightarrow> nat option \<Rightarrow> nat option \<Rightarrow> nat \<Rightarrow> string" where
  "lineOf img stepX stepY y =
     (case (stepX, stepY) of
        (Some sx, Some sy) \<Rightarrow>
          concat (map (\<lambda>x. cell img sx sy y x) (loopRange (width img) stepX))
      | _ \<Rightarrow> [])"

text \<open>The array \<open>lines\<close> at the end of \<open>convertToASCII\<close>.\<close>

definition asciiLines :: "imageData \<Rightarrow> 'a settings_scheme \<Rightarrow> string list" where
  "asciiLines img s =
     (let stepX = stepOf (width img) (asciiWidth s);
          stepY = stepOf (height img) (asciiHeight s)
      in map (lineOf img stepX stepY) (loopRange (height img) stepY))"

text \<open>\<open>lines.join('\n')\<close>.\<close>

fun joinLines :: "string list \<Rightarrow> string" where
  "joinLines [] = []"
| "joinLines [l] = l"
| "joinLines (l # ls) = l @ CHR 0x0A # joinLines ls"

definition convertToASCII :: "imageData \<Rightarrow> 'a settings_scheme \<Rightarrow> string" where
  "convertToASCII img s = joinLines (asciiLines img s)"

text \<open>Two small buffers used as examples: 2 by 2 pixels, and 3 by 1 black pixels.\<close>

definition image2x2 :: imageData where
  "image2x2 =
     \<lparr>data = [255, 255, 255, 255,  0, 0, 0, 255,  128, 128, 128, 255,  10, 200, 30, 255],
      width = 2, height = 2\<rparr>"

definition image3x1 :: imageData where
  "image3x1 = \<lparr>data = [0, 0, 0, 255,  0, 0, 0, 255,  0, 0, 0, 255], width = 3, height = 1\<rparr>"

section \<open>Adaptive seek timeout\<close>

text \<open>
  The deadline, in milliseconds, that \<open>extractFrameInternal\<close> arms before it seeks:
  \<open>videoWidth\<close> and \<open>videoHeight\<close> are the natural size of the source. It is
  \<open>Math.min(30000, baseTimeout + (videoComplexity / 1000000) * 5000)\<close>, and
  \<open>Math.min(45000, adaptiveTimeout * 1.5)\<close> for a mobile device, with the quotient, the
  products and the sum rounded to doubles.
\<close>

definition baseTimeout :: rat where
  "baseTimeout = 10000"

definition adaptiveTimeout :: "nat \<Rightarrow> nat \<Rightarrow> bool \<Rightarrow> rat" where
  "adaptiveTimeout videoWidth videoHeight isMobile =
     (let videoComplexity = of_nat (videoWidth * videoHeight) :: rat;
          t = min 30000 (fl (baseTimeout + fl (fl (videoComplexity / 1000000) * 5000)))
      in if isMobile then min 45000 (fl (t * (15 / 10))) else t)"

section \<open>Frame sampler (\<open>extractFrameInternal\<close>, \<open>extractFrameWithRetry\<close>)\<close>

text \<open>
  Each \<open>throw\<close> and \<open>reject\<close> of the sampler is one constructor; the source tells them
  apart by their message only. \<open>TypeError\<close> is what reading a property of \<open>null\<close> or
  \<open>undefined\<close> throws. \<open>RetriesExhausted time n e\<close> is the error thrown after the retry
  loop, whose message carries the timestamp, \<open>actualMaxRetries\<close> and the message of
  the last error.
\<close>

datatype jsError =
    VideoNotLoaded
  | VideoStateNotLoaded nat
  | VideoNotReady nat
  | InvalidTime rat rat
  | ExtractTimeout
  | ExtractError
  | DrawError
  | TypeError
  | RetriesExhausted rat nat jsError

text \<open>
  What the media element does after \<open>video.currentTime = time\<close>: the \<open>seeked\<close> event
  after some milliseconds, with the pixels then read back from the canvas (\<open>None\<close> when a
  canvas call throws), the \<open>error\<close> event after some milliseconds, or no event.
\<close>

datatype seekOutcome =
    Seeked rat "imageData option"
  | SeekFailed rat
  | NoEvent

text \<open>
  The surroundings of the sampler, as functions of the clock (milliseconds):
  \<open>videoAt\<close> is \<open>this.video\<close> at that moment, \<open>None\<close> for \<open>null\<close> and otherwise its
  \<open>readyState\<close>; \<open>seekAt\<close> is the outcome of a seek started at that moment.
\<close>

record world =
  videoAt :: "rat \<Rightarrow> nat option"
  duration :: rat
  videoWidth :: nat
  videoHeight :: nat
  seekAt :: "rat \<Rightarrow> seekOutcome"

text \<open>
  The polling loop \<open>while (this.video.readyState < threshold && totalWaitTime < maxWaitTime)\<close>
  with its body \<open>await wait; totalWaitTime += waitTime; waitTime = Math.min(waitTime * 1.1, 2000)\<close>;
  the result is the clock when the loop ends, or the \<open>TypeError\<close> of a test that finds
  \<open>this.video\<close> gone, with the clock of that test. Both loops start with
  \<open>waitTime = 500\<close>, so \<open>500 \<le> waitTime\<close> holds at every test. The clock is ideal: a
  timer fires exactly when its delay has passed, and the delays are exact numbers.
\<close>

function pollReady ::
  "(rat \<Rightarrow> nat option) \<Rightarrow> nat \<Rightarrow> rat \<Rightarrow> rat \<Rightarrow> rat \<Rightarrow> rat \<Rightarrow> (jsError \<times> rat) + rat"
where
  "pollReady va threshold maxWaitTime waitTime totalWaitTime now =
     (case va now of
        None \<Rightarrow> Inl (TypeError, now)
      | Some rs \<Rightarrow>
          if rs < threshold \<and> totalWaitTime < maxWaitTime \<and> 500 \<le> waitTime
          then pollReady va threshold maxWaitTime (min (waitTime * (11 / 10)) 2000)
                 (totalWaitTime + waitTime) (now + waitTime)
          else Inr now)"
  by pat_completeness auto
termination
proof (relation "measure (\<lambda>(va, threshold, maxWaitTime, waitTime, totalWaitTime, now).
                   nat \<lceil>maxWaitTime - totalWaitTime\<rceil>)", goal_cases)
  case 1
  show ?case by simp
next
  case (2 va threshold maxWaitTime waitTime totalWaitTime now rs)
  then have a: "0 < maxWaitTime - totalWaitTime" and b: "500 \<le> waitTime"
    by simp_all
  have "\<lceil>maxWaitTime - (totalWaitTime + waitTime)\<rceil> \<le> \<lceil>maxWaitTime - totalWaitTime - 500\<rceil>"
    using b by (intro ceiling_mono) simp
  also have "\<dots> = \<lceil>maxWaitTime - totalWaitTime\<rceil> - 500"
    using ceiling_diff_numeral [of "maxWaitTime - totalWaitTime"] by simp
  finally have "\<lceil>maxWaitTime - (totalWaitTime + waitTime)\<rceil> < \<lceil>maxWaitTime - totalWaitTime\<rceil>"
    by simp
  moreover have "0 < \<lceil>maxWaitTime - totalWaitTime\<rceil>"
    using a by simp
  ultimately show ?case by simp
qed

declare pollReady.simps [simp del]

text \<open>
  The promise at the end of \<open>extractFrameInternal\<close>: the seek races against the timer
  armed with \<open>adaptiveTimeout\<close>; an event at or after the deadline loses.
\<close>

definition seekAndDraw :: "world \<Rightarrow> bool \<Rightarrow> rat \<Rightarrow> (jsError + imageData) \<times> rat" where
  "seekAndDraw w isMobile now =
     (case videoAt w now of
        None \<Rightarrow> (Inl TypeError, now)
      | Some rs \<Rightarrow>
          (let deadline = adaptiveTimeout (videoWidth w) (videoHeight w) isMobile
           in case seekAt w now of
                Seeked dt r \<Rightarrow>
                  if dt < deadline
                  then (case r of None \<Rightarrow> (Inl DrawError, now + dt)
                                | Some img \<Rightarrow> (Inr img, now + dt))
                  else (Inl ExtractTimeout, now + deadline)
              | SeekFailed dt \<Rightarrow>
                  if dt < deadline then (Inl ExtractError, now + dt)
                  else (Inl ExtractTimeout, now + deadline)
              | NoEvent \<Rightarrow> (Inl ExtractTimeout, now + deadline)))"

text \<open>The part of \<open>extractFrameInternal\<close> from the check of the timestamp on.\<close>

definition checkTimeAndSeek :: "world \<Rightarrow> rat \<Rightarrow> bool \<Rightarrow> rat \<Rightarrow> (jsError + imageData) \<times> rat" where
  "checkTimeAndSeek w time isMobile now =
     (if time < 0 \<or> time > duration w then (Inl (InvalidTime time (duration w)), now)
      else (case videoAt w now of
              None \<Rightarrow> (if isMobile then (Inl TypeError, now) else seekAndDraw w isMobile now)
            | Some rs \<Rightarrow>
                if isMobile \<and> rs < 3 then seekAndDraw w isMobile (now + 1000)
                else seekAndDraw w isMobile now))"

text \<open>The second wait of \<open>extractFrameInternal\<close>, for \<open>readyState < 4\<close>, and what follows.\<close>

definition waitEnoughData :: "world \<Rightarrow> rat \<Rightarrow> bool \<Rightarrow> rat \<Rightarrow> (jsError + imageData) \<times> rat" where
  "waitEnoughData w time isMobile now =
     (case videoAt w now of
        None \<Rightarrow> (Inl TypeError, now)
      | Some rs \<Rightarrow>
          if rs < 4 then
            (case pollReady (videoAt w) 4 (if isMobile then 20000 else 12000) 500 0 now of
               Inl (e, thrownAt) \<Rightarrow> (Inl e, thrownAt)
             | Inr now' \<Rightarrow> checkTimeAndSeek w time isMobile now')
          else checkTimeAndSeek w time isMobile now)"

definition extractFrameInternal :: "world \<Rightarrow> rat \<Rightarrow> bool \<Rightarrow> rat \<Rightarrow> (jsError + imageData) \<times> rat" where
  "extractFrameInternal w time isMobile now =
     (case videoAt w now of
        None \<Rightarrow> (Inl VideoNotLoaded, now)
      | Some rs \<Rightarrow>
          if rs < 1 then (Inl (VideoStateNotLoaded rs), now)
          else if rs < 2 then
            (case pollReady (videoAt w) 2 (if isMobile then 10000 else 5000) 500 0 now of
               Inl (e, thrownAt) \<Rightarrow> (Inl e, thrownAt)
             | Inr now' \<Rightarrow>
                 (case videoAt w now' of
                    None \<Rightarrow> (Inl TypeError, now')
                  | Some rs' \<Rightarrow>
                      if rs' < 2 then (Inl (VideoNotReady rs'), now')
                      else waitEnoughData w time isMobile now'))
          else waitEnoughData w time isMobile now)"

text \<open>
  The error thrown after the retry loop; with no attempt made \<open>lastError\<close> is
  \<open>undefined\<close> and building the message throws.
\<close>

definition retriesFailed :: "rat \<Rightarrow> nat \<Rightarrow> jsError option \<Rightarrow> jsError" where
  "retriesFailed time actualMaxRetries lastError =
     (case lastError of None \<Rightarrow> TypeError | Some e \<Rightarrow> RetriesExhausted time actualMaxRetries e)"

text \<open>
  The loop \<open>for (attempt = 1; attempt <= actualMaxRetries; attempt++)\<close>. The result is
  the settled value, the clock, and the errors of the failed attempts in order (one
  \<open>console.warn\<close> each).
\<close>

function retryLoop ::
  "world \<Rightarrow> rat \<Rightarrow> bool \<Rightarrow> nat \<Rightarrow> nat \<Rightarrow> jsError option \<Rightarrow> jsError list \<Rightarrow> rat
   \<Rightarrow> (jsError + imageData) \<times> rat \<times> jsError list"
where
  "retryLoop w time isMobile actualMaxRetries attempt lastError warned now =
     (if attempt \<le> actualMaxRetries then
        (case extractFrameInternal w time isMobile now of
           (Inr img, now') \<Rightarrow> (Inr img, now', warned)
         | (Inl e, now') \<Rightarrow>
             if attempt < actualMaxRetries then
               (let baseDelay = (if isMobile then 1000 else 500) :: rat;
                    delay = baseDelay * 2 ^ (attempt - 1);
                    now1 = now' + delay
                in case videoAt w now1 of
                     Some rs \<Rightarrow>
                       retryLoop w time isMobile actualMaxRetries (attempt + 1) (Some e)
                         (warned @ [e])
                         (if rs < 2 then now1 + (if isMobile then 2000 else 1000) else now1)
                   | None \<Rightarrow>
                       (Inl (retriesFailed time actualMaxRetries (Some e)), now1, warned @ [e]))
             else retryLoop w time isMobile actualMaxRetries (attempt + 1) (Some e)
                    (warned @ [e]) now')
      else (Inl (retriesFailed time actualMaxRetries lastError), now, warned))"
  by pat_completeness auto
termination
  by (relation "measure (\<lambda>(w, time, isMobile, actualMaxRetries, attempt, lastError, warned, now).
                  actualMaxRetries + 1 - attempt)") auto

declare retryLoop.simps [simp del]

definition extractFrameWithRetry ::
  "world \<Rightarrow> rat \<Rightarrow> nat \<Rightarrow> bool \<Rightarrow> rat \<Rightarrow> (jsError + imageData) \<times> rat \<times> jsError list"
where
  "extractFrameWithRetry w time maxRetries isMobile now =
     (let actualMaxRetries = (if isMobile then max maxRetries 5 else maxRetries)
      in retryLoop w time isMobile actualMaxRetries 1 None [] now)"

section \<open>Frame cache (\<open>extractFrame\<close>)\<close>

text \<open>
  A JavaScript \<open>Map\<close> iterates in insertion order: it is a list of key and value pairs
  with distinct keys, oldest insertion first. \<open>set\<close> on a key that is present replaces
  the value where it stands; \<open>delete\<close> of a key that is absent changes nothing.
\<close>

type_synonym ('k, 'v) jsMap = "('k \<times> 'v) list"

definition mapHas :: "('k, 'v) jsMap \<Rightarrow> 'k \<Rightarrow> bool" where
  "mapHas m k = (k \<in> set (map fst m))"

definition mapGet :: "('k, 'v) jsMap \<Rightarrow> 'k \<Rightarrow> 'v option" where
  "mapGet m k = map_of m k"

definition mapDelete :: "('k, 'v) jsMap \<Rightarrow> 'k \<Rightarrow> ('k, 'v) jsMap" where
  "mapDelete m k = filter (\<lambda>e. fst e \<noteq> k) m"

definition mapSet :: "('k, 'v) jsMap \<Rightarrow> 'k \<Rightarrow> 'v \<Rightarrow> ('k, 'v) jsMap" where
  "mapSet m k v = (if mapHas m k then map (\<lambda>e. if fst e = k then (k, v) else e) m else m @ [(k, v)])"

text \<open>
  \<open>frameCache.delete(frameCache.keys().next().value)\<close>: on an empty map the first key is
  \<open>undefined\<close>, which is no key of the map.
\<close>

definition deleteFirstKey :: "('k, 'v) jsMap \<Rightarrow> ('k, 'v) jsMap" where
  "deleteFirstKey m = (case m of [] \<Rightarrow> [] | e # _ \<Rightarrow> mapDelete m (fst e))"

text \<open>
  The cache key \<open>`${time.toFixed(2)}_${width}_${height}`\<close>. \<open>toFixed(2)\<close> prints the sign
  and the hundredths of the absolute value, rounded half up; two keys are equal exactly
  when sign, hundredths, width and height are.
\<close>

type_synonym cacheKey = "bool \<times> int \<times> nat \<times> nat"

definition cacheKeyOf :: "rat \<Rightarrow> nat \<Rightarrow> nat \<Rightarrow> cacheKey" where
  "cacheKeyOf time w h = (time < 0, \<lfloor>\<bar>time\<bar> * 100 + 1 / 2\<rfloor>, w, h)"

record videoProcessor =
  frameCache :: "(cacheKey, imageData) jsMap"
  cacheSize :: nat


text \<open>
  \<open>extractFrame(time, width, height)\<close> runs in two parts. The first runs up to the
  \<open>await\<close>: on a hit it returns the cached buffer, on a miss it evicts when the cache is
  full and suspends with its key. The second runs when the awaited extraction has
  settled: it stores a buffer under the key, or rethrows the error.
\<close>

datatype cacheLookup = Hit imageData | Miss cacheKey

definition extractFrameBegin :: "videoProcessor \<Rightarrow> rat \<Rightarrow> nat \<Rightarrow> nat \<Rightarrow> cacheLookup \<times> videoProcessor" where
  "extractFrameBegin vp time wd ht =
     (let key = cacheKeyOf time wd ht
      in case mapGet (frameCache vp) key of
           Some img \<Rightarrow> (Hit img, vp)
         | None \<Rightarrow>
             (Miss key,
              if length (frameCache vp) \<ge> cacheSize vp
              then vp\<lparr>frameCache := deleteFirstKey (frameCache vp)\<rparr> else vp))"

definition extractFrameEnd ::
  "videoProcessor \<Rightarrow> cacheKey \<Rightarrow> jsError + imageData \<Rightarrow> (jsError + imageData) \<times> videoProcessor"
where
  "extractFrameEnd vp key settled =
     (case settled of
        Inl e \<Rightarrow> (Inl e, vp)
      | Inr imageData \<Rightarrow> (Inr imageData, vp\<lparr>frameCache := mapSet (frameCache vp) key imageData\<rparr>))"

text \<open>
  One call of \<open>extractFrame\<close> at clock \<open>now\<close> with no other call running in between:
  the settled value, the processor afterwards and the clock. The retry wrapper is called
  with its default arguments, three attempts and no mobile flag.
\<close>

definition extractFrame ::
  "videoProcessor \<Rightarrow> world \<Rightarrow> rat \<Rightarrow> nat \<Rightarrow> nat \<Rightarrow> rat \<Rightarrow> (jsError + imageData) \<times> videoProcessor \<times> rat"
where
  "extractFrame vp w time wd ht now =
     (case extractFrameBegin vp time wd ht of
        (Hit img, vp') \<Rightarrow> (Inr img, vp', now)
      | (Miss key, vp1) \<Rightarrow>
          (case extractFrameWithRetry w time 3 False now of
             (settled, now', warned) \<Rightarrow>
               (case extractFrameEnd vp1 key settled of (r, vp2) \<Rightarrow> (r, vp2, now'))))"




text \<open>
  Two example sources of duration 10 s and 640 by 480 pixels, both staying at
  \<open>readyState\<close> 4: one whose every seek completes after 20 ms and draws the given
  image, and one whose seeks never complete.
\<close>

definition readyWorld :: "imageData \<Rightarrow> world" where
  "readyWorld img =
     \<lparr>videoAt = (\<lambda>t. Some 4), duration = 10, videoWidth = 640, videoHeight = 480,
      seekAt = (\<lambda>t. Seeked 20 (Some img))\<rparr>"

definition stalledWorld :: world where
  "stalledWorld =
     \<lparr>videoAt = (\<lambda>t. Some 4), duration = 10, videoWidth = 640, videoHeight = 480,
      seekAt = (\<lambda>t. NoEvent)\<rparr>"

text \<open>
  A source that has only its metadata at first (\<open>readyState\<close> 1), whose video element is
  gone from 500 ms to 1000 ms, and that is fully loaded from then on.
\<close>

definition droppedWorld :: "imageData \<Rightarrow> world" where
  "droppedWorld img =
     \<lparr>videoAt = (\<lambda>t. if t < 500 then Some 1 else if t < 1000 then None else Some 4),
      duration = 10, videoWidth = 640, videoHeight = 480,
      seekAt = (\<lambda>t. Seeked 20 (Some img))\<rparr>"



section \<open>Playback driver, precomputed mode (\<open>ASCIIRenderer\<close>)\<close>

text \<open>The calls the renderer makes on the video processor for the audio track.\<close>

datatype audioCall = PlayAudio | StopAudio | SyncAudio rat

text \<open>
  The fields of \<open>ASCIIRenderer\<close> that precomputed playback uses. \<open>container\<close> is \<open>None\<close>
  for \<open>null\<close> and otherwise the \<open>textContent\<close> of the element; \<open>hasVideoProcessor\<close>
  tells whether \<open>this.videoProcessor\<close> is set and \<open>audioCalls\<close> lists the calls made on it;
  \<open>scheduled\<close> tells whether an animation frame is pending.
\<close>

record renderer =
  container :: "string option"
  hasVideoProcessor :: bool
  audioCalls :: "audioCall list"
  isPlaying :: bool
  isRealtime :: bool
  currentFrame :: int
  frames :: "string list"
  startTime :: rat
  fps :: rat
  frameDelay :: rat
  currentTime :: rat
  totalDuration :: rat
  scheduled :: bool

definition callAudio :: "audioCall \<Rightarrow> renderer \<Rightarrow> renderer" where
  "callAudio c r = (if hasVideoProcessor r then r\<lparr>audioCalls := audioCalls r @ [c]\<rparr> else r)"

text \<open>\<open>this.frames[this.currentFrame]\<close>, \<open>undefined\<close> outside the array.\<close>

definition frameAt :: "string list \<Rightarrow> int \<Rightarrow> string option" where
  "frameAt fs i = (if 0 \<le> i \<and> i < int (length fs) then Some (fs ! nat i) else None)"

text \<open>
  The first statement of \<open>render()\<close>: display \<open>this.frames[this.currentFrame]\<close> when it
  is truthy; an empty string is falsy, so it is not displayed.
\<close>

definition showFrame :: "renderer \<Rightarrow> renderer" where
  "showFrame r =
     (case frameAt (frames r) (currentFrame r) of
        None \<Rightarrow> r
      | Some frame \<Rightarrow> if frame = [] then r else r\<lparr>container := Some frame\<rparr>)"

text \<open>
  \<open>Math.floor(elapsed / this.frameDelay)\<close> with \<open>elapsed = performance.now() - this.startTime\<close>,
  the difference and the quotient rounded to doubles. \<open>frameDelay\<close> is the double
  \<open>1000 / fps\<close> for an \<open>fps\<close> that is not zero.
\<close>

definition expectedFrameAt :: "rat \<Rightarrow> rat \<Rightarrow> rat \<Rightarrow> int" where
  "expectedFrameAt start delay now = \<lfloor>fl (fl (now - start) / delay)\<rfloor>"

text \<open>
  The branch \<open>if (this.isPlaying)\<close> of \<open>render()\<close> at clock \<open>now\<close>
  (\<open>performance.now()\<close>).
\<close>

definition advanceFrame :: "renderer \<Rightarrow> rat \<Rightarrow> renderer" where
  "advanceFrame r now =
     (let expectedFrame = expectedFrameAt (startTime r) (frameDelay r) now;
          r2 = (if expectedFrame \<ge> int (length (frames r))
                then callAudio PlayAudio (r\<lparr>currentFrame := 0, startTime := now\<rparr>)
                else (let r' = r\<lparr>currentFrame := expectedFrame\<rparr>
                      in callAudio (SyncAudio (fl (of_int (currentFrame r') / fps r'))) r'))
      in r2\<lparr>scheduled := True\<rparr>)"

definition render :: "renderer \<Rightarrow> rat \<Rightarrow> renderer" where
  "render r now =
     (if container r = None \<or> length (frames r) = 0 then r
      else (let r1 = showFrame r in if isPlaying r1 then advanceFrame r1 now else r1))"

text \<open>
  \<open>startPreprocessedPlayback(frames, settings)\<close> at clock \<open>now\<close>, with \<open>settings.fps\<close>
  given (\<open>0\<close> stands for a missing or zero value, replaced by 30). It throws without a
  container or without frames.
\<close>

datatype playbackError = NotInitialised | NoFrames

definition startPreprocessedPlayback ::
  "renderer \<Rightarrow> string list \<Rightarrow> rat \<Rightarrow> rat \<Rightarrow> playbackError + renderer"
where
  "startPreprocessedPlayback r fs settingsFps now =
     (if container r = None then Inl NotInitialised
      else if length fs = 0 then Inl NoFrames
      else
        (let f = (if settingsFps = 0 then 30 else settingsFps);
             r1 = r\<lparr>isRealtime := False, frames := fs, fps := f, frameDelay := fl (1000 / f),
                    totalDuration := fl (of_nat (length fs) / f), currentTime := 0,
                    currentFrame := 0, isPlaying := True, startTime := now\<rparr>
         in Inr (render (callAudio PlayAudio r1) now)))"

text \<open>The animation frames that fire at the given clock values, in order.\<close>

fun renderTicks :: "renderer \<Rightarrow> rat list \<Rightarrow> renderer" where
  "renderTicks r [] = r"
| "renderTicks r (now # rest) = renderTicks (render r now) rest"

text \<open>The fields \<open>currentFrame\<close> and \<open>totalFrames\<close> of the object \<open>getPlaybackInfo()\<close> returns.\<close>

record playbackInfo =
  infoCurrentFrame :: int
  infoTotalFrames :: int

definition getPlaybackInfo :: "renderer \<Rightarrow> playbackInfo" where
  "getPlaybackInfo r =
     (if isRealtime r
      then \<lparr>infoCurrentFrame = \<lfloor>fl (currentTime r * fps r)\<rfloor>,
             infoTotalFrames = \<lfloor>fl (totalDuration r * fps r)\<rfloor>\<rparr>
      else \<lparr>infoCurrentFrame = currentFrame r,
             infoTotalFrames = int (length (frames r))\<rparr>)"

text \<open>A renderer after \<open>init(container, videoProcessor)\<close> on a fresh object.\<close>

definition initRenderer :: "bool \<Rightarrow> renderer" where
  "initRenderer withProcessor =
     \<lparr>container = Some [], hasVideoProcessor = withProcessor, audioCalls = [],
      isPlaying = False, isRealtime = False, currentFrame = 0, frames = [], startTime = 0,
      fps = 30, frameDelay = fl (1000 / 30), currentTime = 0, totalDuration = 0,
      scheduled = False\<rparr>"

section \<open>Properties of double rounding\<close>

lemma roundEven_of_int: "roundEven (of_int k) = k"
  by (simp add: roundEven_def Let_def)

lemma roundEven_ge: "of_int k \<le> x \<Longrightarrow> k \<le> roundEven x"
proof -
  assume "of_int k \<le> x"
  then have "k \<le> \<lfloor>x\<rfloor>" by (simp add: le_floor_iff)
  then show ?thesis by (auto simp: roundEven_def Let_def)
qed

lemma roundEven_le: "x \<le> of_int k \<Longrightarrow> roundEven x \<le> k"
proof (cases "x = of_int k")
  case True
  then show ?thesis by (simp add: roundEven_def Let_def)
next
  case False
  assume "x \<le> of_int k"
  then have "x < of_int k" using False by simp
  then have "\<lfloor>x\<rfloor> < k" by (simp add: floor_less_iff)
  then show ?thesis by (auto simp: roundEven_def Let_def)
qed

lemma ilog2_bounds:
  assumes "0 < x"
  shows "2 powi (ilog2 x) \<le> x" and "x < 2 powi (ilog2 x + 1)"
proof -
  have "2 powi (ilog2 x) \<le> x \<and> x < 2 powi (ilog2 x + 1)"
  proof (cases "1 \<le> x")
    case True
    let ?n = "\<lfloor>x\<rfloor>"
    have n: "0 < ?n" using True by simp
    have b1: "1 \<le> bitlen ?n" using n by (simp add: bitlen_alt_def)
    from bitlen_bounds [OF n] have lo: "2 ^ nat (bitlen ?n - 1) \<le> ?n" and hi: "?n < 2 ^ nat (bitlen ?n)"
      by simp_all
    have "(2::rat) powi (bitlen ?n - 1) = 2 ^ nat (bitlen ?n - 1)"
      using b1 by (simp add: power_int_def)
    also have "\<dots> = of_int (2 ^ nat (bitlen ?n - 1))" by simp
    also have "\<dots> \<le> of_int ?n" using lo by (simp only: of_int_le_iff)
    also have "\<dots> \<le> x" by simp
    finally have l: "2 powi (bitlen ?n - 1) \<le> x" .
    have "?n + 1 \<le> 2 ^ nat (bitlen ?n)" using hi by simp
    then have "(of_int (?n + 1) :: rat) \<le> of_int (2 ^ nat (bitlen ?n))"
      by (simp only: of_int_le_iff)
    moreover have "x < of_int (?n + 1)" by linarith
    ultimately have "x < of_int (2 ^ nat (bitlen ?n))" by linarith
    also have "\<dots> = 2 powi (bitlen ?n)" using b1 by (simp add: power_int_def)
    finally have "x < 2 powi (bitlen ?n - 1 + 1)" by simp
    then show ?thesis using l True by (simp add: ilog2_def)
  next
    case False
    then have x1: "x < 1" by simp
    let ?k = "\<lceil>1 / x\<rceil> - 1"
    have "1 < 1 / x" using assms x1 by simp
    then have "1 < \<lceil>1 / x\<rceil>" by (simp add: less_ceiling_iff)
    then have k: "0 < ?k" by simp
    have b1: "1 \<le> bitlen ?k" using k by (simp add: bitlen_alt_def)
    from bitlen_bounds [OF k] have lo: "2 ^ nat (bitlen ?k - 1) \<le> ?k" and hi: "?k < 2 ^ nat (bitlen ?k)"
      by simp_all
    have kx: "of_int ?k < 1 / x" "1 / x \<le> of_int ?k + 1"
      using ceiling_correct [of "1 / x"] by simp_all
    have "(of_int ?k + 1 :: rat) = of_int (?k + 1)" by simp
    also have "\<dots> \<le> of_int (2 ^ nat (bitlen ?k))"
      using hi by (simp only: of_int_le_iff)
    also have "\<dots> = 2 ^ nat (bitlen ?k)" by simp
    finally have "1 / x \<le> 2 ^ nat (bitlen ?k)" using kx(2) by linarith
    then have "1 \<le> 2 ^ nat (bitlen ?k) * x" using assms by (simp add: pos_divide_le_eq)
    then have "1 / 2 ^ nat (bitlen ?k) \<le> x" by (simp add: pos_divide_le_eq mult.commute)
    moreover have "(2::rat) powi (- bitlen ?k) = 1 / 2 ^ nat (bitlen ?k)"
      using b1 by (simp add: power_int_def field_simps)
    ultimately have l: "2 powi (- bitlen ?k) \<le> x" by simp
    have "(2 ^ nat (bitlen ?k - 1) :: rat) = of_int (2 ^ nat (bitlen ?k - 1))" by simp
    also have "\<dots> \<le> of_int ?k" using lo by (simp only: of_int_le_iff)
    finally have "2 ^ nat (bitlen ?k - 1) < 1 / x" using kx(1) by linarith
    then have "2 ^ nat (bitlen ?k - 1) * x < 1" using assms by (simp add: pos_less_divide_eq)
    then have "x < 1 / 2 ^ nat (bitlen ?k - 1)" by (simp add: pos_less_divide_eq mult.commute)
    moreover have "(2::rat) powi (- bitlen ?k + 1) = 1 / 2 ^ nat (bitlen ?k - 1)"
    proof -
      have "- bitlen ?k + 1 = - (bitlen ?k - 1)" by simp
      then have "(2::rat) powi (- bitlen ?k + 1) = 2 powi (- (bitlen ?k - 1))" by simp
      also have "\<dots> = 1 / 2 ^ nat (bitlen ?k - 1)"
        using b1 by (simp add: power_int_def field_simps)
      finally show ?thesis .
    qed
    ultimately have "x < 2 powi (- bitlen ?k + 1)" by simp
    then show ?thesis using l False by (simp add: ilog2_def)
  qed
  then show "2 powi (ilog2 x) \<le> x" and "x < 2 powi (ilog2 x + 1)" by simp_all
qed


lemma fl_pos_eq:
  assumes "0 < x"
  shows "fl x = of_int (roundEven (x / 2 powi (ilog2 x - 52))) * 2 powi (ilog2 x - 52)"
  using assms by (simp add: fl_def Let_def)

lemma scaled_bounds:
  assumes "0 < x"
  shows "2 ^ 52 \<le> x / 2 powi (ilog2 x - 52)"
proof -
  have p: "(0::rat) < 2 powi (ilog2 x - 52)" by (simp add: zero_less_power_int)
  have "(2::rat) powi (ilog2 x) = 2 powi (ilog2 x - 52) * 2 powi 52"
    using power_int_add [of "2::rat" "ilog2 x - 52" 52] by simp
  then have "2 powi (ilog2 x - 52) * 2 ^ 52 \<le> x"
    using ilog2_bounds(1) [OF assms] by simp
  then show ?thesis
    using p by (simp add: pos_le_divide_eq mult.commute)
qed

lemma fl_nonneg: "0 \<le> x \<Longrightarrow> 0 \<le> fl x"
proof (cases "x = 0")
  case True
  then show ?thesis by (simp add: fl_def)
next
  case False
  assume "0 \<le> x"
  then have x: "0 < x" using False by simp
  have "(0::rat) \<le> x / 2 powi (ilog2 x - 52)"
    using x by (simp add: zero_less_power_int less_imp_le)
  then have "0 \<le> roundEven (x / 2 powi (ilog2 x - 52))"
    using roundEven_ge [of 0] by simp
  then show ?thesis
    by (simp add: fl_pos_eq [OF x] zero_less_power_int less_imp_le)
qed

lemma fl_pos: "0 < x \<Longrightarrow> 0 < fl x"
proof -
  assume x: "0 < x"
  have "(of_int (2 ^ 52) :: rat) \<le> x / 2 powi (ilog2 x - 52)"
    using scaled_bounds [OF x] by simp
  then have "2 ^ 52 \<le> roundEven (x / 2 powi (ilog2 x - 52))"
    by (rule roundEven_ge)
  then have "0 < roundEven (x / 2 powi (ilog2 x - 52))" by simp
  then show ?thesis
    by (simp add: fl_pos_eq [OF x] zero_less_power_int)
qed

text \<open>A double \<open>m * 2^p\<close> with \<open>0 \<le> m \<le> 2^53\<close> is a bound of \<open>fl x\<close> when it is one of \<open>x\<close>.\<close>

lemma fl_ge:
  assumes "0 < x" and "0 \<le> m" and "m \<le> 2 ^ 53" and "of_int m * 2 powi p \<le> x"
  shows "of_int m * 2 powi p \<le> fl x"
proof -
  let ?E = "ilog2 x - 52"
  let ?X = "x / 2 powi ?E"
  have pe: "(0::rat) < 2 powi ?E" by (simp add: zero_less_power_int)
  have f: "fl x = of_int (roundEven ?X) * 2 powi ?E" by (rule fl_pos_eq [OF assms(1)])
  show ?thesis
  proof (cases "?E \<le> p")
    case True
    let ?K = "m * 2 ^ nat (p - ?E)"
    have "(2::rat) powi p = 2 powi (p - ?E) * 2 powi ?E"
      using power_int_add [of "2::rat" "p - ?E" ?E] by simp
    also have "(2::rat) powi (p - ?E) = 2 ^ nat (p - ?E)"
      using True by (simp add: power_int_def)
    finally have d: "(of_int m :: rat) * 2 powi p = of_int ?K * 2 powi ?E" by simp
    have "(of_int ?K :: rat) * 2 powi ?E \<le> x" using assms(4) unfolding d .
    then have "(of_int ?K :: rat) \<le> ?X" using pe by (simp add: pos_le_divide_eq)
    then have "?K \<le> roundEven ?X" by (rule roundEven_ge)
    then have "(of_int ?K :: rat) \<le> of_int (roundEven ?X)" by (simp only: of_int_le_iff)
    then have "(of_int ?K :: rat) * 2 powi ?E \<le> of_int (roundEven ?X) * 2 powi ?E"
      using pe by (intro mult_right_mono) (simp_all add: less_imp_le)
    then show ?thesis unfolding d f .
  next
    case False
    then have "53 + p \<le> 52 + ?E" by simp
    then have a: "(2::rat) powi (53 + p) \<le> 2 powi (52 + ?E)"
      by (intro power_int_increasing) simp_all
    have "(of_int m :: rat) \<le> of_int (2 ^ 53)"
      using assms(3) by (simp only: of_int_le_iff)
    then have "(of_int m :: rat) \<le> 2 ^ 53" by simp
    then have b: "(of_int m :: rat) * 2 powi p \<le> 2 ^ 53 * (2::rat) powi p"
      by (intro mult_right_mono) (simp_all add: zero_less_power_int less_imp_le)
    have c: "2 ^ 53 * (2::rat) powi p = 2 powi (53 + p)"
      using power_int_add [of "2::rat" 53 p] by simp
    have d: "(of_int m :: rat) * 2 powi p \<le> 2 powi (52 + ?E)"
      using a b c by linarith
    have "(of_int (2 ^ 52) :: rat) \<le> ?X"
      using scaled_bounds [OF assms(1)] by simp
    then have "2 ^ 52 \<le> roundEven ?X" by (rule roundEven_ge)
    then have "(of_int (2 ^ 52) :: rat) \<le> of_int (roundEven ?X)" by (simp only: of_int_le_iff)
    then have e: "(of_int (2 ^ 52) :: rat) * 2 powi ?E \<le> of_int (roundEven ?X) * 2 powi ?E"
      using pe by (intro mult_right_mono) (simp_all add: less_imp_le)
    have s: "(of_int (2 ^ 52) :: rat) * 2 powi ?E = 2 powi (52 + ?E)"
      using power_int_add [of "2::rat" 52 ?E] by simp
    show ?thesis unfolding f using d e s by linarith
  qed
qed

lemma fl_le:
  assumes "0 < x" and "0 \<le> m" and "m \<le> 2 ^ 53" and "x \<le> of_int m * 2 powi p"
  shows "fl x \<le> of_int m * 2 powi p"
proof -
  let ?E = "ilog2 x - 52"
  let ?X = "x / 2 powi ?E"
  have pe: "(0::rat) < 2 powi ?E" by (simp add: zero_less_power_int)
  have f: "fl x = of_int (roundEven ?X) * 2 powi ?E" by (rule fl_pos_eq [OF assms(1)])
  show ?thesis
  proof (cases "?E \<le> p")
    case True
    let ?K = "m * 2 ^ nat (p - ?E)"
    have "(2::rat) powi p = 2 powi (p - ?E) * 2 powi ?E"
      using power_int_add [of "2::rat" "p - ?E" ?E] by simp
    also have "(2::rat) powi (p - ?E) = 2 ^ nat (p - ?E)"
      using True by (simp add: power_int_def)
    finally have d: "(of_int m :: rat) * 2 powi p = of_int ?K * 2 powi ?E" by simp
    have "x \<le> (of_int ?K :: rat) * 2 powi ?E" using assms(4) unfolding d .
    then have "?X \<le> (of_int ?K :: rat)" using pe by (simp add: pos_divide_le_eq)
    then have "roundEven ?X \<le> ?K" by (rule roundEven_le)
    then have "(of_int (roundEven ?X) :: rat) \<le> of_int ?K" by (simp only: of_int_le_iff)
    then have "(of_int (roundEven ?X) :: rat) * 2 powi ?E \<le> of_int ?K * 2 powi ?E"
      using pe by (intro mult_right_mono) (simp_all add: less_imp_le)
    then show ?thesis unfolding d f .
  next
    case False
    then have "53 + p \<le> 52 + ?E" by simp
    then have a: "(2::rat) powi (53 + p) \<le> 2 powi (52 + ?E)"
      by (intro power_int_increasing) simp_all
    have "(of_int m :: rat) \<le> of_int (2 ^ 53)"
      using assms(3) by (simp only: of_int_le_iff)
    then have "(of_int m :: rat) \<le> 2 ^ 53" by simp
    then have b: "(of_int m :: rat) * 2 powi p \<le> 2 ^ 53 * (2::rat) powi p"
      by (intro mult_right_mono) (simp_all add: zero_less_power_int less_imp_le)
    have c: "2 ^ 53 * (2::rat) powi p = 2 powi (53 + p)"
      using power_int_add [of "2::rat" 53 p] by simp
    have d: "(of_int m :: rat) * 2 powi p \<le> 2 powi (52 + ?E)"
      using a b c by linarith
    have s: "(2::rat) powi (52 + ?E) = 2 ^ 52 * 2 powi ?E"
      using power_int_add [of "2::rat" 52 ?E] by simp
    have "x \<le> 2 ^ 52 * 2 powi ?E"
      using assms(4) d s by linarith
    then have "?X \<le> 2 ^ 52"
      using pe by (simp add: pos_divide_le_eq)
    then have "?X = 2 ^ 52"
      using scaled_bounds [OF assms(1)] by linarith
    then have X: "?X = of_int (2 ^ 52)" by simp
    have r: "roundEven ?X = 2 ^ 52"
      unfolding X by (rule roundEven_of_int)
    have "?X * 2 powi ?E = x" using pe by simp
    then have "x = of_int (2 ^ 52) * 2 powi ?E" unfolding X by simp
    then have "fl x = x" unfolding f r by simp
    then show ?thesis using assms(4) by simp
  qed
qed

lemma fl_ge_int: "0 < x \<Longrightarrow> 0 \<le> k \<Longrightarrow> k \<le> 2 ^ 53 \<Longrightarrow> of_int k \<le> x \<Longrightarrow> of_int k \<le> fl x"
  using fl_ge [of x k 0] by simp

lemma fl_le_int: "0 < x \<Longrightarrow> 0 \<le> k \<Longrightarrow> k \<le> 2 ^ 53 \<Longrightarrow> x \<le> of_int k \<Longrightarrow> fl x \<le> of_int k"
  using fl_le [of x k 0] by simp

lemma luminance_nonneg: "0 \<le> luminance rSum gSum bSum count"
  unfolding luminance_def
  by (intro fl_nonneg add_nonneg_nonneg mult_nonneg_nonneg divide_nonneg_nonneg) simp_all

text \<open>
  Some values, for comparison with a JavaScript engine: the doubles \<open>0.1\<close> and
  \<open>1000 / 30\<close>, and the pixel \<open>(10, 32, 59)\<close>, whose luminance is 28.5 in exact
  arithmetic and just below it in doubles.
\<close>

lemma fl_values:
  "fl (1 / 10) = 3602879701896397 / 2 ^ 55"
  "fl (1000 / 30) = 4691249611844267 / 2 ^ 47"
  "fl 100 = 100" "fl (33 * (15 / 10)) = 99 / 2" "fl (33 * (5 / 10)) = 33 / 2"
  "math_round (luminance 10 32 59 1) = 28"
  by code_simp+

lemma roundEven_error: "\<bar>of_int (roundEven x) - x\<bar> \<le> 1 / 2"
proof -
  have "of_int \<lfloor>x\<rfloor> \<le> x" and "x < of_int \<lfloor>x\<rfloor> + 1"
    by linarith+
  then show ?thesis
    by (auto simp: roundEven_def Let_def abs_le_iff)
qed

lemma ilog2_less:
  assumes "0 < x" and "x < 2 ^ k"
  shows "ilog2 x < int k"
proof (rule ccontr)
  assume "\<not> ilog2 x < int k"
  then have "int k \<le> ilog2 x" by simp
  then have "(2::rat) powi (int k) \<le> 2 powi (ilog2 x)"
    by (intro power_int_increasing) simp_all
  then have "(2::rat) ^ k \<le> 2 powi (ilog2 x)" by simp
  then show False
    using ilog2_bounds(1) [OF assms(1)] assms(2) by linarith
qed

text \<open>The rounding error below \<open>2^k\<close> is at most \<open>2^(k-54)\<close>.\<close>

lemma fl_error:
  assumes "0 \<le> x" and "x < 2 ^ k"
  shows "\<bar>fl x - x\<bar> \<le> 2 ^ k / 2 ^ 54"
proof (cases "x = 0")
  case True
  then show ?thesis by (simp add: fl_def)
next
  case False
  then have x: "0 < x" using assms(1) by simp
  let ?E = "ilog2 x - 52"
  let ?X = "x / 2 powi ?E"
  have pe: "(0::rat) < 2 powi ?E" by (simp add: zero_less_power_int)
  have f: "fl x = of_int (roundEven ?X) * 2 powi ?E" by (rule fl_pos_eq [OF x])
  have xe: "x = ?X * 2 powi ?E" using pe by simp
  have "fl x - x = (of_int (roundEven ?X) - ?X) * 2 powi ?E"
    unfolding f using xe by (simp add: algebra_simps)
  then have "\<bar>fl x - x\<bar> = \<bar>of_int (roundEven ?X) - ?X\<bar> * 2 powi ?E"
    using pe by (simp add: abs_mult)
  also have "\<dots> \<le> 1 / 2 * 2 powi ?E"
    using roundEven_error [of ?X] pe by (intro mult_right_mono) simp_all
  also have "\<dots> \<le> 1 / 2 * 2 powi (int k - 53)"
  proof -
    have "?E \<le> int k - 53" using ilog2_less [OF x assms(2)] by simp
    then have "(2::rat) powi ?E \<le> 2 powi (int k - 53)"
      by (intro power_int_increasing) simp_all
    then show ?thesis by simp
  qed
  also have "\<dots> = 2 ^ k / 2 ^ 54"
    by (simp add: power_int_diff)
  finally show ?thesis .
qed


lemma fl_le_int0: "0 \<le> x \<Longrightarrow> 0 \<le> k \<Longrightarrow> k \<le> 2 ^ 53 \<Longrightarrow> x \<le> of_int k \<Longrightarrow> fl x \<le> of_int k"
  using fl_le_int [of x k] by (cases "x = 0") (simp_all add: fl_def)

lemma min_close: "\<bar>d - e\<bar> \<le> c \<Longrightarrow> \<bar>min m d - min m e\<bar> \<le> (c :: rat)"
  by (auto simp: min_def abs_le_iff)

lemma abs_scale_le:
  fixes x y c e :: rat
  assumes "0 \<le> c" and "\<bar>x - y\<bar> \<le> e"
  shows "\<bar>x * c - y * c\<bar> \<le> c * e"
proof -
  have "x * c - y * c = c * (x - y)" by (simp add: algebra_simps)
  then have "\<bar>x * c - y * c\<bar> = c * \<bar>x - y\<bar>"
    using assms(1) by (simp add: abs_mult)
  then show ?thesis
    using assms by (simp add: mult_left_mono)
qed

lemma scale_literals:
  "fl (8 / 10) = 3602879701896397 / 2 ^ 52" "fl (11 / 10) = 4953959590107546 / 2 ^ 52"
  by code_simp+

text \<open>
  The floor of a double: when \<open>x\<close> lies between a whole number \<open>q\<close> and
  \<open>q + 1 - 2^-26\<close>, both of them doubles for \<open>q\<close> below \<open>2^27\<close>, so does \<open>fl x\<close>.
\<close>

lemma floor_fl_between:
  assumes "0 < x" and "0 \<le> q" and "q < 2 ^ 27" and "of_int q \<le> x"
    and "x \<le> of_int q + 1 - 1 / 2 ^ 26"
  shows "\<lfloor>fl x\<rfloor> = q"
proof -
  have q53: "q \<le> 2 ^ 53" using assms(3) by simp
  have lo: "of_int q \<le> fl x"
    using assms(1,2) q53 assms(4) by (rule fl_ge_int)
  have m: "0 \<le> (q + 1) * 2 ^ 26 - 1" "(q + 1) * 2 ^ 26 - 1 \<le> 2 ^ 53"
    using assms(2,3) by simp_all
  have "x \<le> of_int ((q + 1) * 2 ^ 26 - 1) * 2 powi (- 26)"
    using assms(5) by (simp add: power_int_minus field_simps)
  then have "fl x \<le> of_int ((q + 1) * 2 ^ 26 - 1) * 2 powi (- 26)"
    using assms(1) m by (intro fl_le)
  also have "\<dots> < of_int q + 1"
    by (simp add: power_int_minus field_simps)
  finally have hi: "fl x < of_int q + 1" .
  show ?thesis using lo hi by (rule floor_unique)
qed

lemma nat_le_pow_int: "(n::nat) \<le> 2 ^ k \<Longrightarrow> int n \<le> 2 ^ k"
  by (metis of_nat_le_iff of_nat_numeral of_nat_power)

lemma nat_le_pow_rat: "(n::nat) \<le> 2 ^ k \<Longrightarrow> (of_nat n :: rat) \<le> 2 ^ k"
  by (metis of_nat_le_iff of_nat_numeral of_nat_power)

text \<open>\<open>Math.floor(a / b)\<close> on whole numbers up to \<open>2^26\<close> is the integer quotient.\<close>

lemma floor_div_double:
  assumes "0 < b" and "b \<le> 2 ^ 26" and "a \<le> 2 ^ 26"
  shows "\<lfloor>fl (of_nat a / of_nat b)\<rfloor> = int (a div b)"
proof (cases "a = 0")
  case True
  then show ?thesis by (simp add: fl_def)
next
  case False
  let ?q = "int (a div b)"
  let ?x = "of_nat a / of_nat b :: rat"
  have bpos: "(0::rat) < of_nat b" using assms(1) by simp
  have fq: "\<lfloor>?x\<rfloor> = ?q" by (rule floor_divide_of_nat_eq)
  have lo: "of_int ?q \<le> ?x"
    using of_int_floor_le [of ?x] unfolding fq .
  have "a = b * (a div b) + a mod b" by simp
  moreover have "a mod b < b" using assms(1) by simp
  ultimately have "a + 1 \<le> b * (a div b) + b" by linarith
  then have "(of_nat (a + 1) :: rat) \<le> of_nat (b * (a div b) + b)"
    by (simp only: of_nat_le_iff)
  then have "(of_nat a :: rat) \<le> (of_int ?q + 1) * of_nat b - 1"
    by (simp add: algebra_simps)
  then have "?x \<le> ((of_int ?q + 1) * of_nat b - 1) / of_nat b"
    using bpos by (simp add: divide_right_mono)
  also have "\<dots> = of_int ?q + 1 - 1 / of_nat b"
    using bpos by (simp add: field_simps)
  also have "\<dots> \<le> of_int ?q + 1 - 1 / 2 ^ 26"
  proof -
    have "(of_nat b :: rat) \<le> 2 ^ 26" using assms(2) by (rule nat_le_pow_rat)
    then have "1 / 2 ^ 26 \<le> 1 / (of_nat b :: rat)"
      using bpos by (simp add: frac_le)
    then show ?thesis by simp
  qed
  finally have hi: "?x \<le> of_int ?q + 1 - 1 / 2 ^ 26" .
  have pos: "0 < ?x" using False bpos by simp
  have "a div b \<le> a" by simp
  then have "a div b \<le> 2 ^ 26" using assms(3) by linarith
  then have "?q \<le> 2 ^ 26" by (rule nat_le_pow_int)
  then have qb: "?q < 2 ^ 27" by simp
  show ?thesis
    using pos _ qb lo hi by (rule floor_fl_between) simp
qed

text \<open>
  \<open>Math.floor(w * 0.8)\<close> and \<open>Math.floor(w * 1.1)\<close> on a whole number up to \<open>2^26\<close> are
  the floors of the exact products, although the doubles \<open>0.8\<close> and \<open>1.1\<close> are not the
  decimals.
\<close>

lemma floor_scale_double:
  assumes "w \<le> 2 ^ 26"
  shows "\<lfloor>fl (of_nat w * fl (8 / 10))\<rfloor> = \<lfloor>of_nat w * (8 / 10 :: rat)\<rfloor>"
    and "\<lfloor>fl (of_nat w * fl (11 / 10))\<rfloor> = \<lfloor>of_nat w * (11 / 10 :: rat)\<rfloor>"
proof -
  have w: "(of_nat w :: rat) \<le> 2 ^ 26"
    using assms by (rule nat_le_pow_rat)
  have small: "(of_nat w :: rat) / (5 * 2 ^ 52) \<le> 1 / 160"
    using w by simp
  show "\<lfloor>fl (of_nat w * fl (8 / 10))\<rfloor> = \<lfloor>of_nat w * (8 / 10 :: rat)\<rfloor>"
  proof (cases "w = 0")
    case True
    then show ?thesis by (simp add: fl_def)
  next
    case False
    let ?q = "int (4 * w div 5)"
    let ?x = "of_nat w * fl (8 / 10) :: rat"
    have fq: "\<lfloor>of_nat (4 * w) / (of_nat 5 :: rat)\<rfloor> = ?q"
      by (rule floor_divide_of_nat_eq)
    then have ex: "\<lfloor>of_nat w * (8 / 10 :: rat)\<rfloor> = ?q"
      by (simp add: mult.commute)
    have x: "?x = of_nat (4 * w) / 5 + of_nat w / (5 * 2 ^ 52)"
      unfolding scale_literals by (simp add: field_simps)
    have q1: "of_int ?q \<le> (of_nat (4 * w) / 5 :: rat)"
      using of_int_floor_le [of "of_nat (4 * w) / (of_nat 5 :: rat)"] unfolding fq by simp
    have "4 * w = 5 * (4 * w div 5) + 4 * w mod 5" by simp
    moreover have "4 * w mod 5 \<le> 4" by simp
    ultimately have "4 * w \<le> 5 * (4 * w div 5) + 4" by linarith
    then have "(of_nat (4 * w) :: rat) \<le> of_nat (5 * (4 * w div 5) + 4)"
      by (simp only: of_nat_le_iff)
    then have q2: "(of_nat (4 * w) / 5 :: rat) \<le> of_int ?q + 4 / 5"
      by simp
    have pos: "0 < ?x"
      using False unfolding scale_literals by simp
    have "4 * w div 5 \<le> w" by simp
    then have "4 * w div 5 \<le> 2 ^ 26" using assms by linarith
    then have "?q \<le> 2 ^ 26" by (rule nat_le_pow_int)
    then have qb: "?q < 2 ^ 27" by simp
    have "0 \<le> (of_nat w :: rat) / (5 * 2 ^ 52)" by simp
    then have lo: "of_int ?q \<le> ?x" using q1 unfolding x by linarith
    have hi: "?x \<le> of_int ?q + 1 - 1 / 2 ^ 26" using q2 small unfolding x by simp
    have "\<lfloor>fl ?x\<rfloor> = ?q"
      using pos _ qb lo hi by (rule floor_fl_between) simp
    then show ?thesis unfolding ex .
  qed
  show "\<lfloor>fl (of_nat w * fl (11 / 10))\<rfloor> = \<lfloor>of_nat w * (11 / 10 :: rat)\<rfloor>"
  proof (cases "w = 0")
    case True
    then show ?thesis by (simp add: fl_def)
  next
    case False
    let ?q = "int (11 * w div 10)"
    let ?x = "of_nat w * fl (11 / 10) :: rat"
    have fq: "\<lfloor>of_nat (11 * w) / (of_nat 10 :: rat)\<rfloor> = ?q"
      by (rule floor_divide_of_nat_eq)
    then have ex: "\<lfloor>of_nat w * (11 / 10 :: rat)\<rfloor> = ?q"
      by (simp add: mult.commute)
    have x: "?x = of_nat (11 * w) / 10 + 2 * (of_nat w / (5 * 2 ^ 52))"
      unfolding scale_literals by (simp add: field_simps)
    have q1: "of_int ?q \<le> (of_nat (11 * w) / 10 :: rat)"
      using of_int_floor_le [of "of_nat (11 * w) / (of_nat 10 :: rat)"] unfolding fq by simp
    have "11 * w = 10 * (11 * w div 10) + 11 * w mod 10" by simp
    moreover have "11 * w mod 10 \<le> 9" by simp
    ultimately have "11 * w \<le> 10 * (11 * w div 10) + 9" by linarith
    then have "(of_nat (11 * w) :: rat) \<le> of_nat (10 * (11 * w div 10) + 9)"
      by (simp only: of_nat_le_iff)
    then have q2: "(of_nat (11 * w) / 10 :: rat) \<le> of_int ?q + 9 / 10"
      by simp
    have pos: "0 < ?x"
      using False unfolding scale_literals by simp
    have "11 * w div 10 < 2 * w" using False by simp
    then have "11 * w div 10 < 2 ^ 27" using assms by simp
    then have "int (11 * w div 10) < int (2 ^ 27)" by (simp only: of_nat_less_iff)
    then have qb: "?q < 2 ^ 27" by simp
    have "0 \<le> (of_nat w :: rat) / (5 * 2 ^ 52)" by simp
    then have lo: "of_int ?q \<le> ?x" using q1 unfolding x by linarith
    have hi: "?x \<le> of_int ?q + 1 - 1 / 2 ^ 26" using q2 small unfolding x by simp
    have "\<lfloor>fl ?x\<rfloor> = ?q"
      using pos _ qb lo hi by (rule floor_fl_between) simp
    then show ?thesis unfolding ex .
  qed
qed


text \<open>
  So the steps and the ramp index, written with exact quotients in the converter, are the
  values the source computes in doubles, for sizes up to \<open>2^26\<close> and gray levels up to
  \<open>2^22\<close>.
\<close>

lemma stepOf_double:
  assumes "0 < n" and "n \<le> 2 ^ 26" and "len \<le> 2 ^ 26"
  shows "stepOf len n = Some (max 1 (nat \<lfloor>fl (of_nat len / of_nat n)\<rfloor>))"
  using assms by (simp add: stepOf_def floor_div_double)

lemma charIndex_double:
  assumes "0 \<le> g" and "g \<le> 2 ^ 22"
  shows "min (charCount - 1) \<lfloor>fl (of_int (g * (charCount - 1)) / 255)\<rfloor> = charIndex g"
proof -
  let ?a = "nat (g * 9)"
  have c: "charCount = 10" by (simp add: charCount_def asciiChars_def)
  have "g * 9 \<le> 2 ^ 26" using assms(2) by simp
  then have a: "?a \<le> 2 ^ 26" using assms(1) by (simp add: nat_le_iff)
  have "\<lfloor>fl (of_nat ?a / of_nat 255)\<rfloor> = int (?a div 255)"
    using _ _ a by (rule floor_div_double) simp_all
  moreover have "\<lfloor>of_nat ?a / (of_nat 255 :: rat)\<rfloor> = int (?a div 255)"
    by (rule floor_divide_of_nat_eq)
  moreover have "(of_nat ?a :: rat) = of_int (g * 9)"
    using assms(1) by simp
  ultimately have "\<lfloor>fl (of_int (g * 9) / 255)\<rfloor> = \<lfloor>(of_int (g * 9) :: rat) / 255\<rfloor>"
    by simp
  then show ?thesis by (simp add: charIndex_def c)
qed

section \<open>Properties of the quality controller\<close>













text \<open>
  Claim C5, as amended. For every monitor state and latency sample, when the settings
  passed in have width in 60..200 and height in 20..80, so have the settings returned.
\<close>

theorem adaptQuality_keeps_bounds:
  "60 \<le> asciiWidth s \<Longrightarrow> asciiWidth s \<le> 200 \<Longrightarrow> 20 \<le> asciiHeight s \<Longrightarrow> asciiHeight s \<le> 80 \<Longrightarrow>
   60 \<le> asciiWidth (snd (adaptQuality pm t s)) \<and> asciiWidth (snd (adaptQuality pm t s)) \<le> 200
   \<and> 20 \<le> asciiHeight (snd (adaptQuality pm t s)) \<and> asciiHeight (snd (adaptQuality pm t s)) \<le> 80"
  apply (simp add: adaptQuality_def Let_def split: option.splits)
  apply (intro conjI impI allI)
         apply linarith+
  done

theorem adaptQuality_keeps_bounds_witness:
  "(60::nat) \<le> 120 \<and> (120::nat) \<le> 200 \<and> (20::nat) \<le> 40 \<and> (40::nat) \<le> 80
   \<and> 60 \<le> asciiWidth (snd (adaptQuality initialMonitor 60 \<lparr>asciiWidth = 120, asciiHeight = 40\<rparr>))
   \<and> asciiWidth (snd (adaptQuality initialMonitor 60 \<lparr>asciiWidth = 120, asciiHeight = 40\<rparr>)) \<le> 200
   \<and> 20 \<le> asciiHeight (snd (adaptQuality initialMonitor 60 \<lparr>asciiWidth = 120, asciiHeight = 40\<rparr>))
   \<and> asciiHeight (snd (adaptQuality initialMonitor 60 \<lparr>asciiWidth = 120, asciiHeight = 40\<rparr>)) \<le> 80"
  using adaptQuality_keeps_bounds
          [of "\<lparr>asciiWidth = 120, asciiHeight = 40\<rparr>" initialMonitor 60]
  by simp

text \<open>
  Claim C5 as stated fails: a latency of 33 ms is inside the dead band, so settings of
  width 500 come back unchanged.
\<close>

theorem adaptQuality_out_of_range_counterexample:
  "\<not> asciiWidth (snd (adaptQuality initialMonitor 33 \<lparr>asciiWidth = 500, asciiHeight = 40\<rparr>)) \<le> 200"
  by code_simp

section \<open>Properties of the luminance ramp\<close>

lemma charCount_eq: "charCount = 10"
  by (simp add: charCount_def asciiChars_def)

lemma charIndex_div: "charIndex g = min 9 (g * 9 div 255)"
proof -
  have "\<lfloor>(of_int (g * 9) :: rat) / of_int 255\<rfloor> = g * 9 div 255"
    by (rule floor_divide_of_int_eq)
  then show ?thesis
    by (simp add: charIndex_def charCount_eq)
qed

lemma charIndex_mono: "g1 \<le> g2 \<Longrightarrow> charIndex g1 \<le> charIndex g2"
  unfolding charIndex_div
  by (intro min.mono order_refl zdiv_mono1) simp_all

lemma charIndex_range: "0 \<le> g \<Longrightarrow> 0 \<le> charIndex g \<and> charIndex g < charCount"
  unfolding charIndex_div charCount_eq
  by (simp add: pos_imp_zdiv_nonneg_iff)

lemma glyph_char: "0 \<le> g \<Longrightarrow> glyph (Some g) = [asciiChars ! nat (charIndex g)]"
  using charIndex_range [of g] by (simp add: glyph_def Let_def)

text \<open>
  Claim C6. The ramp has the 10 glyphs \<open>'' .:-=+*#%@''\<close>, the index chosen for a gray
  level \<open>g\<close> is \<open>min 9 (floor (g * 9 / 255))\<close>, and for gray levels
  \<open>0 \<le> g1 \<le> g2 \<le> 255\<close> the index for \<open>g2\<close> is at least the index for \<open>g1\<close>; the
  glyph appended is the ramp character at that index.
\<close>

theorem charIndex_monotone:
  "0 \<le> g1 \<Longrightarrow> g1 \<le> g2 \<Longrightarrow> g2 \<le> 255 \<Longrightarrow>
   asciiChars = '' .:-=+*#%@'' \<and> charCount = 10
   \<and> charIndex g1 = min 9 (g1 * 9 div 255) \<and> charIndex g2 = min 9 (g2 * 9 div 255)
   \<and> charIndex g1 \<le> charIndex g2
   \<and> glyph (Some g1) = [asciiChars ! nat (charIndex g1)]
   \<and> glyph (Some g2) = [asciiChars ! nat (charIndex g2)]"
  using charIndex_mono [of g1 g2] glyph_char [of g1] glyph_char [of g2]
  by (simp add: charIndex_div charCount_eq asciiChars_def)

theorem charIndex_monotone_witness:
  "(0::int) \<le> 100 \<and> (100::int) \<le> 200 \<and> (200::int) \<le> 255
   \<and> charIndex 100 = 3 \<and> charIndex 200 = 7 \<and> charIndex 100 \<le> charIndex 200
   \<and> glyph (Some 100) = ''-'' \<and> glyph (Some 200) = ''#''"
  using charIndex_monotone [of 100 200]
  by (simp add: asciiChars_def)

section \<open>Properties of the adaptive timeout\<close>

lemma adaptiveTimeout_desktop:
  "adaptiveTimeout vw vh False =
     min 30000 (fl (10000 + fl (fl (of_nat (vw * vh) / 1000000) * 5000)))"
  by (simp add: adaptiveTimeout_def baseTimeout_def Let_def)

lemma adaptiveTimeout_mobile:
  "adaptiveTimeout vw vh True = min 45000 (fl (adaptiveTimeout vw vh False * (15 / 10)))"
  by (simp add: adaptiveTimeout_def Let_def)

lemma adaptiveTimeout_range:
  "10000 \<le> adaptiveTimeout vw vh False" "adaptiveTimeout vw vh False \<le> 30000"
  "15000 \<le> adaptiveTimeout vw vh True" "adaptiveTimeout vw vh True \<le> 45000"
proof -
  let ?b = "fl (fl (of_nat (vw * vh) / 1000000) * 5000)"
  have "0 \<le> fl (of_nat (vw * vh) / 1000000)" by (intro fl_nonneg) simp
  then have b: "0 \<le> ?b" by (intro fl_nonneg) simp
  then have "of_int 10000 \<le> fl (10000 + ?b)"
    by (intro fl_ge_int) simp_all
  then show lo: "10000 \<le> adaptiveTimeout vw vh False"
    unfolding adaptiveTimeout_desktop by simp
  show "adaptiveTimeout vw vh False \<le> 30000"
    unfolding adaptiveTimeout_desktop by simp
  have "of_int 15000 \<le> fl (adaptiveTimeout vw vh False * (15 / 10))"
    using lo by (intro fl_ge_int) simp_all
  then show "15000 \<le> adaptiveTimeout vw vh True"
    unfolding adaptiveTimeout_mobile by simp
  show "adaptiveTimeout vw vh True \<le> 45000"
    unfolding adaptiveTimeout_mobile by simp
qed

text \<open>
  The deadline differs from the exact value of the formula by the three roundings only:
  by less than \<open>2^-36\<close> ms.
\<close>

lemma adaptiveTimeout_close_desktop:
  "\<bar>adaptiveTimeout vw vh False - min 30000 (10000 + 5000 * (of_nat (vw * vh) / 1000000))\<bar>
     \<le> 1 / 2 ^ 37"
proof -
  let ?r = "of_nat (vw * vh) / 1000000 :: rat"
  let ?a = "fl ?r"
  let ?b = "fl (?a * 5000)"
  let ?d = "fl (10000 + ?b)"
  have r0: "0 \<le> ?r" by simp
  have a0: "0 \<le> ?a" using r0 by (rule fl_nonneg)
  then have a5: "0 \<le> ?a * 5000" by simp
  then have b0: "0 \<le> ?b" by (rule fl_nonneg)
  show ?thesis
  proof (cases "?r < 4")
    case True
    have "?r < 2 ^ 2" using True by simp
    then have "\<bar>?a - ?r\<bar> \<le> 2 ^ 2 / 2 ^ 54" using r0 by (intro fl_error)
    then have ea: "\<bar>?a - ?r\<bar> \<le> 1 / 2 ^ 52" by simp
    have "?a \<le> of_int 4" using r0 True by (intro fl_le_int0) simp_all
    then have a4: "?a \<le> 4" by simp
    then have "?a * 5000 < 2 ^ 15" by simp
    then have "\<bar>?b - ?a * 5000\<bar> \<le> 2 ^ 15 / 2 ^ 54" using a5 by (intro fl_error)
    then have eb: "\<bar>?b - ?a * 5000\<bar> \<le> 1 / 2 ^ 39" by simp
    have "?b \<le> of_int 20000" using a5 a4 by (intro fl_le_int0) simp_all
    then have "10000 + ?b < 2 ^ 15" by simp
    moreover have "0 \<le> 10000 + ?b" using b0 by simp
    ultimately have "\<bar>?d - (10000 + ?b)\<bar> \<le> 2 ^ 15 / 2 ^ 54" by (intro fl_error)
    then have ed: "\<bar>?d - (10000 + ?b)\<bar> \<le> 1 / 2 ^ 39" by simp
    have em: "\<bar>?a * 5000 - ?r * 5000\<bar> \<le> 5000 * (1 / 2 ^ 52)"
      using _ ea by (rule abs_scale_le) simp
    have "\<bar>?d - (10000 + ?r * 5000)\<bar> \<le> 1 / 2 ^ 39 + 1 / 2 ^ 39 + 5000 * (1 / 2 ^ 52)"
      using ed eb em by linarith
    also have "\<dots> \<le> 1 / 2 ^ 37" by simp
    finally have "\<bar>?d - (10000 + 5000 * ?r)\<bar> \<le> 1 / 2 ^ 37"
      by (simp only: mult.commute)
    then show ?thesis
      unfolding adaptiveTimeout_desktop by (rule min_close)
  next
    case False
    then have r4: "of_int 4 \<le> ?r" by simp
    then have "0 < ?r" by simp
    then have "of_int 4 \<le> ?a" using r4 by (intro fl_ge_int) simp_all
    then have "of_int 20000 \<le> ?a * 5000" by simp
    moreover from this have "0 < ?a * 5000" by simp
    ultimately have "of_int 20000 \<le> ?b" by (intro fl_ge_int) simp_all
    then have "of_int 30000 \<le> 10000 + ?b" by simp
    moreover from this have "0 < 10000 + ?b" by simp
    ultimately have "of_int 30000 \<le> ?d" by (intro fl_ge_int) simp_all
    then have "min 30000 ?d = 30000" by simp
    moreover have "30000 \<le> 10000 + 5000 * ?r" using r4 by linarith
    then have "min 30000 (10000 + 5000 * ?r) = 30000" by (simp only: min_def) simp
    ultimately show ?thesis unfolding adaptiveTimeout_desktop by simp
  qed
qed

lemma adaptiveTimeout_close_mobile:
  "\<bar>adaptiveTimeout vw vh True
      - min 45000 (min 30000 (10000 + 5000 * (of_nat (vw * vh) / 1000000)) * (15 / 10))\<bar>
     \<le> 1 / 2 ^ 36"
proof -
  let ?t = "adaptiveTimeout vw vh False"
  let ?e = "min 30000 (10000 + 5000 * (of_nat (vw * vh) / 1000000)) :: rat"
  note c = adaptiveTimeout_close_desktop [of vw vh]
  note r = adaptiveTimeout_range(1,2) [of vw vh]
  have x0: "0 \<le> ?t * (15 / 10)" using r(1) by simp
  have "?t * (15 / 10) < 2 ^ 16" using r(2) by simp
  then have "\<bar>fl (?t * (15 / 10)) - ?t * (15 / 10)\<bar> \<le> 2 ^ 16 / 2 ^ 54"
    using x0 by (intro fl_error)
  then have ef: "\<bar>fl (?t * (15 / 10)) - ?t * (15 / 10)\<bar> \<le> 1 / 2 ^ 38" by simp
  have em: "\<bar>?t * (15 / 10) - ?e * (15 / 10)\<bar> \<le> (15 / 10) * (1 / 2 ^ 37)"
    using _ c by (rule abs_scale_le) simp
  have "\<bar>fl (?t * (15 / 10)) - ?e * (15 / 10)\<bar> \<le> 1 / 2 ^ 38 + (15 / 10) * (1 / 2 ^ 37)"
    using ef em by linarith
  also have "\<dots> \<le> 1 / 2 ^ 36" by simp
  finally have "\<bar>fl (?t * (15 / 10)) - ?e * (15 / 10)\<bar> \<le> 1 / 2 ^ 36" .
  then show ?thesis
    unfolding adaptiveTimeout_mobile by (rule min_close)
qed

text \<open>Some deadlines: 640 by 480, 1920 by 1080 and 3840 by 2160 pixels.\<close>

lemma timeout_doubles:
  "fl (10000 + fl (fl (307200 / 1000000) * 5000)) = 11536"
  "fl (11536 * (15 / 10)) = 17304"
  "fl (10000 + fl (fl (2073600 / 1000000) * 5000)) = 20368"
  "fl (10000 + fl (fl (8294400 / 1000000) * 5000)) = 51472"
  "fl (30000 * (15 / 10)) = 45000"
  by code_simp+

lemma adaptiveTimeout_values:
  "adaptiveTimeout 640 480 False = 11536" "adaptiveTimeout 640 480 True = 17304"
  "adaptiveTimeout 1920 1080 False = 20368" "adaptiveTimeout 3840 2160 False = 30000"
  "adaptiveTimeout 3840 2160 True = 45000"
proof -
  have c: "(of_nat (640 * 480) :: rat) = 307200" "(of_nat (1920 * 1080) :: rat) = 2073600"
    "(of_nat (3840 * 2160) :: rat) = 8294400"
    by simp_all
  show a: "adaptiveTimeout 640 480 False = 11536"
    unfolding adaptiveTimeout_desktop c timeout_doubles by simp
  show "adaptiveTimeout 640 480 True = 17304"
    unfolding adaptiveTimeout_mobile a timeout_doubles by simp
  show "adaptiveTimeout 1920 1080 False = 20368"
    unfolding adaptiveTimeout_desktop c timeout_doubles by simp
  show b: "adaptiveTimeout 3840 2160 False = 30000"
    unfolding adaptiveTimeout_desktop c timeout_doubles by simp
  show "adaptiveTimeout 3840 2160 True = 45000"
    unfolding adaptiveTimeout_mobile b timeout_doubles by simp
qed


text \<open>
  Claim C9, as amended. For a source of \<open>w\<close> by \<open>h\<close> pixels the deadline is, in
  milliseconds, the double \<open>10000 + (w * h / 1000000) * 5000\<close> capped at 30000: the base
  of 10 s plus 5 s for every million pixels, an addition that is not bounded by 5 s but
  by 20 s. When the sampler is called for a mobile device the deadline is that value
  times 1.5, capped at 45000. The roundings move either deadline by less than \<open>2^-36\<close> ms
  from the exact value of the formula, and the deadline lies in 10000..30000, or
  15000..45000. A seek that raises no event fails with the timeout error once that
  deadline has passed, and a seek completed before the deadline yields its image.
\<close>

theorem adaptiveTimeout_formula:
  "adaptiveTimeout vw vh False =
     min 30000 (fl (10000 + fl (fl (of_nat (vw * vh) / 1000000) * 5000)))
   \<and> adaptiveTimeout vw vh True = min 45000 (fl (adaptiveTimeout vw vh False * (15 / 10)))
   \<and> \<bar>adaptiveTimeout vw vh False - min 30000 (10000 + 5000 * (of_nat (vw * vh) / 1000000))\<bar>
        \<le> 1 / 2 ^ 36
   \<and> \<bar>adaptiveTimeout vw vh True
        - min 45000 (min 30000 (10000 + 5000 * (of_nat (vw * vh) / 1000000)) * (15 / 10))\<bar>
        \<le> 1 / 2 ^ 36
   \<and> 10000 \<le> adaptiveTimeout vw vh False \<and> adaptiveTimeout vw vh False \<le> 30000
   \<and> 15000 \<le> adaptiveTimeout vw vh True \<and> adaptiveTimeout vw vh True \<le> 45000
   \<and> baseTimeout = 10000
   \<and> adaptiveTimeout vw vh False - baseTimeout \<le> 20000
   \<and> (videoAt w now \<noteq> None \<and> seekAt w now = NoEvent
      \<longrightarrow> seekAndDraw w isMobile now =
            (Inl ExtractTimeout, now + adaptiveTimeout (videoWidth w) (videoHeight w) isMobile))
   \<and> (videoAt w now \<noteq> None \<and> seekAt w now = Seeked dt (Some img)
        \<and> dt < adaptiveTimeout (videoWidth w) (videoHeight w) isMobile
      \<longrightarrow> seekAndDraw w isMobile now = (Inr img, now + dt))"
proof -
  have c1: "\<bar>adaptiveTimeout vw vh False - min 30000 (10000 + 5000 * (of_nat (vw * vh) / 1000000))\<bar>
        \<le> 1 / 2 ^ 36"
  proof -
    have "(1 :: rat) / 2 ^ 37 \<le> 1 / 2 ^ 36" by simp
    then show ?thesis using adaptiveTimeout_close_desktop [of vw vh] by (rule order_trans [rotated])
  qed
  have b: "baseTimeout = 10000" by (simp add: baseTimeout_def)
  have a: "adaptiveTimeout vw vh False - baseTimeout \<le> 20000"
    using adaptiveTimeout_range(2) [of vw vh] unfolding b by simp
  have s1: "seekAndDraw w isMobile now =
            (Inl ExtractTimeout, now + adaptiveTimeout (videoWidth w) (videoHeight w) isMobile)"
    if "videoAt w now \<noteq> None \<and> seekAt w now = NoEvent"
    using that by (auto simp: seekAndDraw_def Let_def)
  have s2: "seekAndDraw w isMobile now = (Inr img, now + dt)"
    if "videoAt w now \<noteq> None \<and> seekAt w now = Seeked dt (Some img)
        \<and> dt < adaptiveTimeout (videoWidth w) (videoHeight w) isMobile"
    using that by (auto simp: seekAndDraw_def Let_def)
  show ?thesis
    by (intro conjI impI adaptiveTimeout_desktop adaptiveTimeout_mobile c1
        adaptiveTimeout_close_mobile adaptiveTimeout_range b a s1 s2) simp_all
qed

theorem adaptiveTimeout_formula_witness:
  "adaptiveTimeout 640 480 False = 11536 \<and> adaptiveTimeout 640 480 True = 17304
   \<and> adaptiveTimeout 1920 1080 False = 20368 \<and> adaptiveTimeout 3840 2160 False = 30000
   \<and> adaptiveTimeout 3840 2160 True = 45000
   \<and> seekAndDraw stalledWorld False 0 = (Inl ExtractTimeout, 11536)
   \<and> seekAndDraw (readyWorld image2x2) False 0 = (Inr image2x2, 20)"
proof -
  note v = adaptiveTimeout_values
  have h1: "videoAt stalledWorld 0 \<noteq> None \<and> seekAt stalledWorld 0 = NoEvent"
    by (simp add: stalledWorld_def)
  have h2: "videoAt (readyWorld image2x2) 0 \<noteq> None
        \<and> seekAt (readyWorld image2x2) 0 = Seeked 20 (Some image2x2)
        \<and> 20 < adaptiveTimeout (videoWidth (readyWorld image2x2)) (videoHeight (readyWorld image2x2)) False"
    by (simp add: readyWorld_def v)
  show ?thesis
    using adaptiveTimeout_formula [where w = stalledWorld and now = 0 and isMobile = False]
      adaptiveTimeout_formula [where w = "readyWorld image2x2" and now = 0 and isMobile = False
        and dt = 20 and img = image2x2]
      h1 h2 v
    by (simp add: stalledWorld_def readyWorld_def)
qed

text \<open>
  Claim C9 as stated fails: for a source of 1920 by 1080 pixels the deadline exceeds the
  base of 10 s by 10.368 s, which is more than 5 s.
\<close>

theorem adaptiveTimeout_addon_counterexample:
  "adaptiveTimeout 1920 1080 False - baseTimeout = 10368
   \<and> \<not> adaptiveTimeout 1920 1080 False - baseTimeout \<le> 5000"
proof -
  have "adaptiveTimeout 1920 1080 False = min 30000 (fl (10000 + fl (fl (2073600 / 1000000) * 5000)))"
    by (simp add: adaptiveTimeout_def baseTimeout_def Let_def)
  also have "fl (10000 + fl (fl (2073600 / 1000000) * 5000)) = 20368"
    by code_simp
  finally show ?thesis
    by (simp add: baseTimeout_def)
qed

section \<open>Properties of the ASCII converter\<close>

lemma positions_length:
  "0 < step \<Longrightarrow> length (positions step v (int n - int step)) = (n - v) div step"
proof (induction step v "int n - int step" rule: positions.induct)
  case (1 step v)
  show ?case
  proof (cases "int v \<le> int n - int step")
    case True
    then have le: "v + step \<le> n" by linarith
    have "(n - v) div step = Suc ((n - (v + step)) div step)"
      using le 1(2) by (simp add: le_div_geq)
    moreover have "length (positions step (v + step) (int n - int step)) = (n - (v + step)) div step"
      using 1 True by simp
    ultimately show ?thesis
      using 1(2) True by (subst positions.simps) simp
  next
    case False
    then have "n < v + step" by linarith
    then have "n - v < step" using 1(2) by arith
    then show ?thesis
      using False by (subst positions.simps) simp
  qed
qed

lemma positions_bound:
  "p \<in> set (positions step v maxV) \<Longrightarrow> int p \<le> maxV"
proof (induction step v maxV rule: positions.induct)
  case (1 step v maxV)
  from "1.prems" have c: "0 < step \<and> int v \<le> maxV"
    by (subst (asm) positions.simps) (auto split: if_splits)
  from "1.prems" c have "p = v \<or> p \<in> set (positions step (v + step) maxV)"
    by (subst (asm) positions.simps) auto
  then show ?case using 1(1) c by auto
qed

lemma addPixel_defined:
  assumes "inBounds a k" and "i + 2 < length d"
  shows "inBounds (addPixel d a i) (Suc k)"
  using assms by (cases a) (auto simp: inBounds_def sample_def addNum_def split: option.splits)


lemma foldl_count:
  assumes "P a k" and "\<And>b j x. x \<in> set xs \<Longrightarrow> P b j \<Longrightarrow> P (f b x) (j + c)"
  shows "P (foldl f a xs) (k + length xs * c)"
  using assms
proof (induction xs arbitrary: a k)
  case Nil
  then show ?case by simp
next
  case (Cons x xs)
  have "P (f a x) (k + c)" using Cons.prems by simp
  then have "P (foldl f (f a x) xs) (k + c + length xs * c)"
    using Cons.prems(2) by (intro Cons.IH) simp_all
  then show ?case by (simp add: ac_simps)
qed

lemma pixel_in_range:
  fixes a b H W :: nat
  assumes "a < H" and "b < W"
  shows "a * (W * 4) + b * 4 + 2 < 4 * W * H"
proof -
  have "Suc a * W \<le> H * W"
    using assms(1) by (intro mult_le_mono1) simp
  then have "a * W + b < H * W"
    using assms(2) by simp
  then have "4 * (a * W + b) + 4 \<le> 4 * (H * W)"
    by simp
  then show ?thesis
    by (simp add: algebra_simps)
qed

lemma blockRow_inBounds:
  assumes "inBounds acc k" and "length d = 4 * W * H"
    and "y + dy < H" and "x + stepX \<le> W"
  shows "inBounds (blockRow d (W * 4) stepX y x acc dy) (k + stepX)"
proof -
  have "inBounds (foldl (\<lambda>a dx. addPixel d a ((y + dy) * (W * 4) + (x + dx) * 4)) acc [0..<stepX])
          (k + length [0..<stepX] * 1)"
  proof (rule foldl_count [where P = inBounds], goal_cases)
    case 1
    show ?case by (rule assms(1))
  next
    case (2 b j dx)
    then have "x + dx < W" using assms(4) by simp
    then have "(y + dy) * (W * 4) + (x + dx) * 4 + 2 < length d"
      using pixel_in_range [OF assms(3), of "x + dx" W] assms(2) by simp
    then show ?case
      using 2(2) addPixel_defined by simp
  qed
  then show ?thesis
    by (simp add: blockRow_def Let_def)
qed

lemma blockSums_inBounds:
  assumes "length d = 4 * W * H" and "y + stepY \<le> H" and "x + stepX \<le> W"
  shows "inBounds (blockSums d (W * 4) stepX stepY y x) (stepY * stepX)"
proof -
  have "inBounds (foldl (blockRow d (W * 4) stepX y x) (Some 0, Some 0, Some 0, 0) [0..<stepY])
          (0 + length [0..<stepY] * stepX)"
  proof (rule foldl_count [where P = inBounds], goal_cases)
    case 1
    show ?case by (simp add: inBounds_def)
  next
    case (2 b j dy)
    then have "y + dy < H" using assms(2) by simp
    then show ?case
      using blockRow_inBounds [OF 2(2) assms(1) _ assms(3)] by simp
  qed
  then show ?thesis
    by (simp add: blockSums_def)
qed

lemma math_round_nonneg: "0 \<le> x \<Longrightarrow> 0 \<le> math_round x"
  by (simp add: math_round_def)

lemma grayOf_inBounds:
  assumes "inBounds a k" and "0 < k"
  shows "\<exists>g. grayOf a = Some g \<and> 0 \<le> g"
proof -
  obtain r g b where a: "a = (Some r, Some g, Some b, k)"
    using assms(1) by (auto simp: inBounds_def split: prod.splits option.splits)
  show ?thesis
    using assms(2) by (simp add: a math_round_nonneg luminance_nonneg)
qed

lemma cell_glyph:
  assumes "wellFormed img" and "y + stepY \<le> height img" and "x + stepX \<le> width img"
    and "0 < stepX" and "0 < stepY"
  shows "\<exists>i < length asciiChars. cell img stepX stepY y x = [asciiChars ! i]"
proof -
  have "inBounds (blockSums (data img) (width img * 4) stepX stepY y x) (stepY * stepX)"
    using assms(1-3) by (intro blockSums_inBounds) (simp_all add: wellFormed_def)
  then obtain g where g: "grayOf (blockSums (data img) (width img * 4) stepX stepY y x) = Some g" "0 \<le> g"
    using grayOf_inBounds assms(4,5) by (metis mult_pos_pos)
  have "nat (charIndex g) < length asciiChars"
    using charIndex_range [OF g(2)] by (simp add: charCount_def nat_less_iff)
  then show ?thesis
    using glyph_char [OF g(2)] g(1) by (auto simp: cell_def)
qed


lemma loopRange_length:
  "length (loopRange len (stepOf len n)) = (if n = 0 then 0 else len div max 1 (len div n))"
  using positions_length [of "max 1 (len div n)" 0 len]
  by (simp add: loopRange_def stepOf_def)

lemma loopRange_bound:
  assumes "p \<in> set (loopRange len (stepOf len n))"
  shows "\<exists>st. stepOf len n = Some st \<and> 0 < st \<and> p + st \<le> len"
proof -
  from assms obtain st where st: "stepOf len n = Some st"
    by (cases "stepOf len n") (auto simp: loopRange_def)
  then have pos: "0 < st"
    by (auto simp: stepOf_def split: if_splits)
  from assms st have "int p \<le> int len - int st"
    by (auto simp: loopRange_def dest: positions_bound)
  then have "p + st \<le> len" by linarith
  then show ?thesis using st pos by simp
qed

lemma asciiLines_length:
  "length (asciiLines img s) =
     (if asciiHeight s = 0 then 0 else height img div max 1 (height img div asciiHeight s))"
  by (simp add: asciiLines_def Let_def loopRange_length)

lemma concat_glyphs:
  assumes "\<And>x. x \<in> set xs \<Longrightarrow> \<exists>i < length cs. f x = [cs ! i]"
  shows "length (concat (map f xs)) = length xs \<and> set (concat (map f xs)) \<subseteq> set cs"
  using assms
proof (induction xs)
  case Nil
  then show ?case by simp
next
  case (Cons x xs)
  from Cons.prems [of x] obtain i where i: "i < length cs" "f x = [cs ! i]"
    by auto
  have "length (concat (map f xs)) = length xs \<and> set (concat (map f xs)) \<subseteq> set cs"
    using Cons.prems by (intro Cons.IH) simp
  then show ?case
    using i by simp
qed

lemma asciiLines_line:
  assumes "wellFormed img" and "l \<in> set (asciiLines img s)"
  shows "length l = (if asciiWidth s = 0 then 0 else width img div max 1 (width img div asciiWidth s))
       \<and> set l \<subseteq> set asciiChars"
proof -
  let ?sx = "stepOf (width img) (asciiWidth s)" and ?sy = "stepOf (height img) (asciiHeight s)"
  from assms(2) obtain y where y: "y \<in> set (loopRange (height img) ?sy)"
    and l: "l = lineOf img ?sx ?sy y"
    by (auto simp: asciiLines_def Let_def)
  from loopRange_bound [OF y] obtain sy where sy: "?sy = Some sy" "0 < sy" "y + sy \<le> height img"
    by auto
  show ?thesis
  proof (cases ?sx)
    case None
    then have "asciiWidth s = 0"
      by (simp add: stepOf_def split: if_splits)
    then show ?thesis
      using None by (simp add: l lineOf_def)
  next
    case (Some sx)
    have "\<exists>i < length asciiChars. cell img sx sy y x = [asciiChars ! i]"
      if "x \<in> set (loopRange (width img) ?sx)" for x
    proof -
      from loopRange_bound [OF that] have sx: "0 < sx" "x + sx \<le> width img"
        using Some by auto
      show ?thesis
        by (rule cell_glyph [OF assms(1) sy(3) sx(2) sx(1) sy(2)])
    qed
    then have "length (concat (map (\<lambda>x. cell img sx sy y x) (loopRange (width img) ?sx)))
                 = length (loopRange (width img) ?sx)
               \<and> set (concat (map (\<lambda>x. cell img sx sy y x) (loopRange (width img) ?sx)))
                   \<subseteq> set asciiChars"
      by (rule concat_glyphs)
    moreover have "length (loopRange (width img) (Some sx)) =
        (if asciiWidth s = 0 then 0 else width img div max 1 (width img div asciiWidth s))"
      using loopRange_length [of "width img" "asciiWidth s"] Some by simp
    ultimately show ?thesis
      using Some sy(1) by (simp add: l lineOf_def)
  qed
qed

lemma grid_fits:
  fixes len n :: nat
  assumes "n = 0 \<or> len < n \<or> len mod n < len div n"
  shows "(if n = 0 then 0 else len div max 1 (len div n)) \<le> n"
proof (cases "n = 0 \<or> len < n")
  case True
  then show ?thesis by auto
next
  case False
  then have n: "0 < n" "n \<le> len" and r: "len mod n < len div n"
    using assms by auto
  let ?k = "len div n"
  have k: "0 < ?k" using n by (simp add: div_greater_zero_iff)
  have "n * ?k + len mod n = len" by simp
  then have "len < n * ?k + ?k" using r by linarith
  then have "len < Suc n * ?k" by simp
  then have "len div ?k < Suc n"
    by (rule less_mult_imp_div_less)
  then show ?thesis using n k by (simp add: max_def)
qed

lemma joinLines_empty:
  "\<forall>l \<in> set ls. l = [] \<Longrightarrow> set (joinLines ls) \<subseteq> {CHR 0x0A}"
  by (induction ls rule: joinLines.induct) auto

lemma joinLines_blank:
  "\<forall>l \<in> set ls. l = [] \<Longrightarrow> joinLines ls = replicate (length ls - 1) (CHR 0x0A)"
  by (induction ls rule: joinLines.induct) simp_all

text \<open>
  Claim C1, as amended. For a buffer of \<open>4 * width * height\<close> bytes the frame has
  \<open>height div stepY\<close> lines of \<open>width div stepX\<close> ramp characters each, where
  \<open>stepX = max 1 (width div outW)\<close> and \<open>stepY = max 1 (height div outH)\<close> (no line, or
  no character, when \<open>outH\<close> or \<open>outW\<close> is 0): trailing partial blocks are dropped. The
  frame has at most \<open>outH\<close> lines when the buffer's height is below \<open>outH\<close> or leaves a
  remainder modulo \<open>outH\<close> smaller than \<open>stepY\<close>, and lines of at most \<open>outW\<close> characters
  under the same condition on the width; both hold for a buffer of exactly \<open>outW\<close> by
  \<open>outH\<close> pixels, which is what the sampler produces.
\<close>

theorem asciiLines_grid:
  assumes "wellFormed img"
  shows "length (asciiLines img s) =
           (if asciiHeight s = 0 then 0 else height img div max 1 (height img div asciiHeight s))
       \<and> (\<forall>l \<in> set (asciiLines img s).
            length l = (if asciiWidth s = 0 then 0 else width img div max 1 (width img div asciiWidth s)))
       \<and> (asciiHeight s = 0 \<or> height img < asciiHeight s
            \<or> height img mod asciiHeight s < height img div asciiHeight s
          \<longrightarrow> length (asciiLines img s) \<le> asciiHeight s)
       \<and> (asciiWidth s = 0 \<or> width img < asciiWidth s
            \<or> width img mod asciiWidth s < width img div asciiWidth s
          \<longrightarrow> (\<forall>l \<in> set (asciiLines img s). length l \<le> asciiWidth s))"
  using asciiLines_length [of img s] asciiLines_line [OF assms, of _ s]
    grid_fits [of "asciiHeight s" "height img"] grid_fits [of "asciiWidth s" "width img"]
  by simp

lemma image2x2_lines: "asciiLines image2x2 \<lparr>asciiWidth = 2, asciiHeight = 2\<rparr> = [''@ '', ''=='']"
  by code_simp

theorem asciiLines_grid_witness:
  "wellFormed image2x2
   \<and> asciiLines image2x2 \<lparr>asciiWidth = 2, asciiHeight = 2\<rparr> = [''@ '', ''=='']
   \<and> length (asciiLines image2x2 \<lparr>asciiWidth = 2, asciiHeight = 2\<rparr>) \<le> 2
   \<and> map length (asciiLines image2x2 \<lparr>asciiWidth = 2, asciiHeight = 2\<rparr>) = [2, 2]"
proof -
  have wf: "wellFormed image2x2"
    by (simp add: wellFormed_def image2x2_def)
  show ?thesis
    using asciiLines_grid [OF wf, of "\<lparr>asciiWidth = 2, asciiHeight = 2\<rparr>"] wf image2x2_lines
    by (simp add: image2x2_def)
qed

text \<open>
  Claim C1 as stated fails: a buffer 3 pixels wide converted for a width of 2 has
  \<open>stepX = max 1 (3 div 2) = 1\<close> and so a line of 3 characters.
\<close>

theorem asciiLines_wider_counterexample:
  "wellFormed image3x1
   \<and> asciiLines image3x1 \<lparr>asciiWidth = 2, asciiHeight = 1\<rparr> = [''   '']
   \<and> \<not> length (hd (asciiLines image3x1 \<lparr>asciiWidth = 2, asciiHeight = 1\<rparr>)) \<le> 2"
proof -
  have "asciiLines image3x1 \<lparr>asciiWidth = 2, asciiHeight = 1\<rparr> = [''   '']"
    by code_simp
  then show ?thesis
    by (simp add: wellFormed_def image3x1_def)
qed

text \<open>
  Claim C7, as amended. The converter is a total function to strings (every loop above
  terminates and no statement of it throws). For a buffer of \<open>4 * width * height\<close>
  bytes, every block it visits has a positive pixel count and reads inside the array
  only, so every character of every line is a ramp glyph. When the width or the height
  is 0 no line holds a character, and the result holds nothing but line breaks. When the
  height is 0 there is no line and the result is the empty string. When the width is 0
  there are \<open>height div stepY\<close> empty lines (none when \<open>outH\<close> is 0) and the result is
  one line break fewer than there are lines: the empty string for at most one line, and
  not empty for two lines or more.
\<close>

theorem convertToASCII_total:
  assumes "wellFormed img"
  shows "(\<forall>y \<in> set (loopRange (height img) (stepOf (height img) (asciiHeight s))).
          \<forall>x \<in> set (loopRange (width img) (stepOf (width img) (asciiWidth s))).
            \<exists>stepX stepY. stepOf (width img) (asciiWidth s) = Some stepX
              \<and> stepOf (height img) (asciiHeight s) = Some stepY
              \<and> 0 < stepY * stepX
              \<and> inBounds (blockSums (data img) (width img * 4) stepX stepY y x) (stepY * stepX))
       \<and> (\<forall>l \<in> set (asciiLines img s). set l \<subseteq> set asciiChars)
       \<and> (width img = 0 \<or> height img = 0 \<longrightarrow>
            (\<forall>l \<in> set (asciiLines img s). l = []) \<and> set (convertToASCII img s) \<subseteq> {CHR 0x0A})
       \<and> (height img = 0 \<longrightarrow> asciiLines img s = [] \<and> convertToASCII img s = [])
       \<and> (width img = 0 \<longrightarrow>
            length (asciiLines img s) =
              (if asciiHeight s = 0 then 0 else height img div max 1 (height img div asciiHeight s))
            \<and> convertToASCII img s = replicate (length (asciiLines img s) - 1) (CHR 0x0A))"
proof (intro conjI ballI impI)
  fix y x
  assume y: "y \<in> set (loopRange (height img) (stepOf (height img) (asciiHeight s)))"
    and x: "x \<in> set (loopRange (width img) (stepOf (width img) (asciiWidth s)))"
  from loopRange_bound [OF y] obtain sy
    where sy: "stepOf (height img) (asciiHeight s) = Some sy" "0 < sy" "y + sy \<le> height img"
    by auto
  from loopRange_bound [OF x] obtain sx
    where sx: "stepOf (width img) (asciiWidth s) = Some sx" "0 < sx" "x + sx \<le> width img"
    by auto
  have "inBounds (blockSums (data img) (width img * 4) sx sy y x) (sy * sx)"
    using assms sy(3) sx(3) by (intro blockSums_inBounds) (simp_all add: wellFormed_def)
  then show "\<exists>stepX stepY. stepOf (width img) (asciiWidth s) = Some stepX
              \<and> stepOf (height img) (asciiHeight s) = Some stepY
              \<and> 0 < stepY * stepX
              \<and> inBounds (blockSums (data img) (width img * 4) stepX stepY y x) (stepY * stepX)"
    using sx sy by simp
next
  fix l assume "l \<in> set (asciiLines img s)"
  then show "set l \<subseteq> set asciiChars"
    using asciiLines_line [OF assms] by blast
next
  assume z: "width img = 0 \<or> height img = 0"
  have e: "\<forall>l \<in> set (asciiLines img s). l = []"
  proof
    fix l assume l: "l \<in> set (asciiLines img s)"
    have "height img \<noteq> 0"
    proof
      assume "height img = 0"
      then have "length (asciiLines img s) = 0"
        by (simp add: asciiLines_length)
      then show False using l by simp
    qed
    then have "width img = 0" using z by simp
    then have "length l = 0"
      using asciiLines_line [OF assms l] by (simp split: if_splits)
    then show "l = []" by simp
  qed
  then show "\<And>l. l \<in> set (asciiLines img s) \<Longrightarrow> l = []" by blast
  show "set (convertToASCII img s) \<subseteq> {CHR 0x0A}"
    unfolding convertToASCII_def using e by (rule joinLines_empty)
next
  assume "height img = 0"
  then have "length (asciiLines img s) = 0"
    by (simp add: asciiLines_length)
  then show "asciiLines img s = []" by simp
  then show "convertToASCII img s = []" by (simp add: convertToASCII_def)
next
  show "length (asciiLines img s) =
          (if asciiHeight s = 0 then 0 else height img div max 1 (height img div asciiHeight s))"
    by (rule asciiLines_length)
next
  assume w: "width img = 0"
  have "\<forall>l \<in> set (asciiLines img s). l = []"
  proof
    fix l assume "l \<in> set (asciiLines img s)"
    then have "length l = 0"
      using asciiLines_line [OF assms, of l s] w by (simp split: if_splits)
    then show "l = []" by simp
  qed
  then show "convertToASCII img s = replicate (length (asciiLines img s) - 1) (CHR 0x0A)"
    unfolding convertToASCII_def by (rule joinLines_blank)
qed

theorem convertToASCII_total_witness:
  "wellFormed \<lparr>data = [], width = 0, height = 2\<rparr>
   \<and> convertToASCII \<lparr>data = [], width = 0, height = 2\<rparr> \<lparr>asciiWidth = 2, asciiHeight = 2\<rparr> = [CHR 0x0A]
   \<and> convertToASCII \<lparr>data = [], width = 0, height = 3\<rparr> \<lparr>asciiWidth = 2, asciiHeight = 3\<rparr>
       = [CHR 0x0A, CHR 0x0A]
   \<and> convertToASCII \<lparr>data = [], width = 0, height = 0\<rparr> \<lparr>asciiWidth = 2, asciiHeight = 2\<rparr> = []
   \<and> wellFormed image2x2
   \<and> convertToASCII image2x2 \<lparr>asciiWidth = 2, asciiHeight = 2\<rparr> = ''@ '' @ [CHR 0x0A] @ ''==''
   \<and> set (loopRange (height image2x2) (stepOf (height image2x2) 2)) = {0, 1}
   \<and> inBounds (blockSums (data image2x2) (width image2x2 * 4) 1 1 1 1) 1"
proof -
  have wf: "wellFormed image2x2"
    by (simp add: wellFormed_def image2x2_def)
  have wf0: "wellFormed \<lparr>data = [], width = 0, height = 2\<rparr>"
    by (simp add: wellFormed_def)
  have wf3: "wellFormed \<lparr>data = [], width = 0, height = 3\<rparr>"
    and wf00: "wellFormed \<lparr>data = [], width = 0, height = 0\<rparr>"
    by (simp_all add: wellFormed_def)
  have c1: "convertToASCII image2x2 \<lparr>asciiWidth = 2, asciiHeight = 2\<rparr> = ''@ '' @ [CHR 0x0A] @ ''==''"
    by (simp add: convertToASCII_def image2x2_lines)
  have r: "loopRange (height image2x2) (stepOf (height image2x2) 2) = [0, 1]"
     "loopRange (width image2x2) (stepOf (width image2x2) 2) = [0, 1]"
     "stepOf (height image2x2) 2 = Some 1" "stepOf (width image2x2) 2 = Some 1"
    by code_simp+
  show ?thesis
    using convertToASCII_total [OF wf, of "\<lparr>asciiWidth = 2, asciiHeight = 2\<rparr>"]
      convertToASCII_total [OF wf0, of "\<lparr>asciiWidth = 2, asciiHeight = 2\<rparr>"]
      convertToASCII_total [OF wf3, of "\<lparr>asciiWidth = 2, asciiHeight = 3\<rparr>"]
      convertToASCII_total [OF wf00, of "\<lparr>asciiWidth = 2, asciiHeight = 2\<rparr>"]
      wf wf0 c1 r
    by (simp add: numeral_2_eq_2)
qed

text \<open>
  Claim C7 as stated fails in its last clause: a buffer of width 0 and height 2,
  converted for 2 lines, gives two empty lines joined by a line break, which is not the
  empty frame.
\<close>

theorem convertToASCII_zero_width_counterexample:
  "wellFormed \<lparr>data = [], width = 0, height = 2\<rparr>
   \<and> convertToASCII \<lparr>data = [], width = 0, height = 2\<rparr> \<lparr>asciiWidth = 2, asciiHeight = 2\<rparr> = [CHR 0x0A]
   \<and> convertToASCII \<lparr>data = [], width = 0, height = 2\<rparr> \<lparr>asciiWidth = 2, asciiHeight = 2\<rparr> \<noteq> []"
proof -
  have "convertToASCII \<lparr>data = [], width = 0, height = 2\<rparr> \<lparr>asciiWidth = 2, asciiHeight = 2\<rparr> = [CHR 0x0A]"
    by code_simp
  then show ?thesis
    by (simp add: wellFormed_def)
qed

section \<open>Properties of the frame cache\<close>

lemma mapGet_None: "mapGet m k = None \<longleftrightarrow> \<not> mapHas m k"
  by (simp add: mapGet_def mapHas_def map_of_eq_None_iff)

lemma deleteFirstKey_distinct:
  "distinct (map fst m) \<Longrightarrow> deleteFirstKey m = tl m"
proof (cases m)
  case Nil
  then show ?thesis by (simp add: deleteFirstKey_def)
next
  case (Cons e rest)
  assume "distinct (map fst m)"
  then have "fst e \<notin> fst ` set rest"
    using Cons by simp
  then have "\<forall>e' \<in> set rest. fst e' \<noteq> fst e"
    by (metis imageI)
  then have "filter (\<lambda>e'. fst e' \<noteq> fst e) rest = rest"
    by (simp add: filter_id_conv)
  then show ?thesis
    using Cons by (simp add: deleteFirstKey_def mapDelete_def)
qed




lemma extractFrame_unfold:
  "extractFrame vp w time wd ht now =
     (let key = cacheKeyOf time wd ht
      in case mapGet (frameCache vp) key of
           Some img \<Rightarrow> (Inr img, vp, now)
         | None \<Rightarrow>
             (let vp1 = (if length (frameCache vp) \<ge> cacheSize vp
                         then vp\<lparr>frameCache := deleteFirstKey (frameCache vp)\<rparr> else vp)
              in case extractFrameWithRetry w time 3 False now of
                   (Inl e, now', warned) \<Rightarrow> (Inl e, vp1, now')
                 | (Inr imageData, now', warned) \<Rightarrow>
                     (Inr imageData, vp1\<lparr>frameCache := mapSet (frameCache vp1) key imageData\<rparr>, now')))"
  by (simp add: extractFrame_def extractFrameBegin_def extractFrameEnd_def Let_def
      split: option.splits prod.splits sum.splits)





text \<open>The two example sources: every attempt succeeds, or every attempt times out.\<close>

lemma stalled_attempt:
  "extractFrameInternal stalledWorld 5 False now = (Inl ExtractTimeout, now + 11536)"
  by (simp add: extractFrameInternal_def waitEnoughData_def checkTimeAndSeek_def seekAndDraw_def
      stalledWorld_def adaptiveTimeout_values Let_def)

lemma stalled_video: "videoAt stalledWorld t = Some 4"
  by (simp add: stalledWorld_def)

lemma stalled_fails:
  "extractFrameWithRetry stalledWorld 5 3 False 0 =
     (Inl (RetriesExhausted 5 3 ExtractTimeout), 36108, [ExtractTimeout, ExtractTimeout, ExtractTimeout])"
  unfolding extractFrameWithRetry_def Let_def
  apply (subst retryLoop.simps, simp add: stalled_attempt stalled_video)
  apply (subst retryLoop.simps, simp add: stalled_attempt stalled_video)
  apply (subst retryLoop.simps, simp add: stalled_attempt stalled_video)
  apply (subst retryLoop.simps, simp add: retriesFailed_def)
  done





lemma extractFrame_miss_fail:
  assumes "mapGet (frameCache vp) (cacheKeyOf time wd ht) = None"
    and "distinct (map fst (frameCache vp))"
    and "extractFrameWithRetry w time 3 False now = (Inl e, now', warned)"
  shows "extractFrame vp w time wd ht now =
           (Inl e,
            (if cacheSize vp \<le> length (frameCache vp)
             then vp\<lparr>frameCache := tl (frameCache vp)\<rparr> else vp),
            now')"
  using assms by (simp add: extractFrame_unfold Let_def deleteFirstKey_distinct)




text \<open>
  With capacity 2: after the keys of 0 s and 1 s are cached, a hit on 0 s and then a miss
  on 2 s evict the key of 0 s, the oldest insertion, although it was the latest used.
\<close>

lemma cacheKeyOf_values:
  "cacheKeyOf 0 2 2 = (False, 0, 2, 2)" "cacheKeyOf 1 2 2 = (False, 100, 2, 2)"
  "cacheKeyOf 2 2 2 = (False, 200, 2, 2)" "cacheKeyOf 5 2 2 = (False, 500, 2, 2)"
  by code_simp+






text \<open>
  Claim C10. On a miss with the cache at its (positive) capacity, when the retried
  extraction fails, \<open>extractFrame\<close> fails with that error and leaves the cache without
  its oldest entry and without an entry for the requested key: one entry fewer than
  before the call.
\<close>

theorem extractFrame_failure_evicts:
  assumes "mapGet (frameCache vp) (cacheKeyOf time wd ht) = None"
    and "0 < cacheSize vp" and "cacheSize vp \<le> length (frameCache vp)"
    and "distinct (map fst (frameCache vp))"
    and "extractFrameWithRetry w time 3 False now = (Inl e, now', warned)"
  shows "extractFrame vp w time wd ht now = (Inl e, vp\<lparr>frameCache := tl (frameCache vp)\<rparr>, now')
       \<and> length (tl (frameCache vp)) = length (frameCache vp) - 1
       \<and> length (tl (frameCache vp)) < length (frameCache vp)
       \<and> \<not> mapHas (tl (frameCache vp)) (cacheKeyOf time wd ht)"
proof -
  have ne: "frameCache vp \<noteq> []"
    using assms(2,3) by auto
  have "\<not> mapHas (frameCache vp) (cacheKeyOf time wd ht)"
    using assms(1) by (simp add: mapGet_None)
  then have "\<not> mapHas (tl (frameCache vp)) (cacheKeyOf time wd ht)"
    by (cases "frameCache vp") (auto simp: mapHas_def)
  then show ?thesis
    using extractFrame_miss_fail [OF assms(1,4,5)] assms(3) ne by simp
qed

theorem extractFrame_failure_evicts_witness:
  "extractFrame \<lparr>frameCache = [((False, 0, 2, 2), image2x2), ((False, 100, 2, 2), image2x2)], cacheSize = 2\<rparr>
      stalledWorld 5 2 2 0
     = (Inl (RetriesExhausted 5 3 ExtractTimeout),
        \<lparr>frameCache = [((False, 100, 2, 2), image2x2)], cacheSize = 2\<rparr>, 36108)"
proof -
  let ?vp2 = "\<lparr>frameCache = [((False, 0, 2, 2), image2x2), ((False, 100, 2, 2), image2x2)], cacheSize = 2\<rparr>"
  have h1: "mapGet (frameCache ?vp2) (cacheKeyOf 5 2 2) = None"
    by (simp add: mapGet_def cacheKeyOf_values)
  have h2: "0 < cacheSize ?vp2" "cacheSize ?vp2 \<le> length (frameCache ?vp2)"
    "distinct (map fst (frameCache ?vp2))"
    by simp_all
  show ?thesis
    using extractFrame_failure_evicts [OF h1 h2 stalled_fails] by simp
qed

section \<open>Properties of the frame sampler\<close>

lemma pollReady_present:
  "\<forall>t. va t \<noteq> None \<Longrightarrow> \<exists>now'. pollReady va th mx wt tot now = Inr now'"
proof (induction va th mx wt tot now rule: pollReady.induct)
  case (1 va threshold maxWaitTime waitTime totalWaitTime now)
  from "1.prems" obtain rs where rs: "va now = Some rs" by auto
  show ?case
  proof (cases "rs < threshold \<and> totalWaitTime < maxWaitTime \<and> 500 \<le> waitTime")
    case True
    then show ?thesis
      using "1.IH" [OF rs True "1.prems"] rs by (subst pollReady.simps) simp
  next
    case False
    then show ?thesis
      using rs by (subst pollReady.simps) auto
  qed
qed

text \<open>
  When the video element is gone at the second test of a readiness poll, the attempt
  fails at that test, 500 ms after it started; the retry then starts at 1000 ms, when
  the element is back, and succeeds at 1020 ms.
\<close>

lemma dropped_video_retry:
  "extractFrameInternal (droppedWorld img) 5 False 0 = (Inl TypeError, 500)"
  "extractFrameWithRetry (droppedWorld img) 5 3 False 0 = (Inr img, 1020, [TypeError])"
proof -
  have p: "pollReady (videoAt (droppedWorld img)) 2 5000 500 0 0 = Inl (TypeError, 500)"
    apply (subst pollReady.simps, simp add: droppedWorld_def)
    apply (subst pollReady.simps, simp)
    done
  show a: "extractFrameInternal (droppedWorld img) 5 False 0 = (Inl TypeError, 500)"
    using p by (simp add: extractFrameInternal_def) (simp add: droppedWorld_def)
  have b: "extractFrameInternal (droppedWorld img) 5 False 1000 = (Inr img, 1020)"
    by (simp add: extractFrameInternal_def waitEnoughData_def checkTimeAndSeek_def seekAndDraw_def
      droppedWorld_def adaptiveTimeout_values Let_def)
  have v: "videoAt (droppedWorld img) 1000 = Some 4"
    by (simp add: droppedWorld_def)
  show "extractFrameWithRetry (droppedWorld img) 5 3 False 0 = (Inr img, 1020, [TypeError])"
    unfolding extractFrameWithRetry_def Let_def
    apply (subst retryLoop.simps, simp add: a v)
    apply (subst retryLoop.simps, simp add: b)
    done
qed

lemma checkTimeAndSeek_invalid:
  "time < 0 \<or> duration w < time \<Longrightarrow>
   checkTimeAndSeek w time isMobile now = (Inl (InvalidTime time (duration w)), now)"
  by (simp add: checkTimeAndSeek_def)

lemma waitEnoughData_invalid:
  assumes "\<forall>t. \<exists>rs. videoAt w t = Some rs \<and> 2 \<le> rs" and "time < 0 \<or> duration w < time"
  shows "\<exists>now'. waitEnoughData w time isMobile now = (Inl (InvalidTime time (duration w)), now')"
proof -
  from assms(1) obtain rs where rs: "videoAt w now = Some rs" by blast
  have "\<forall>t. videoAt w t \<noteq> None" using assms(1) by (metis option.distinct(1))
  then obtain now' where p: "pollReady (videoAt w) 4 (if isMobile then 20000 else 12000) 500 0 now = Inr now'"
    using pollReady_present by blast
  show ?thesis
    using rs p assms(2) by (simp add: waitEnoughData_def checkTimeAndSeek_invalid)
qed

lemma extractFrameInternal_invalid:
  assumes "\<forall>t. \<exists>rs. videoAt w t = Some rs \<and> 2 \<le> rs" and "time < 0 \<or> duration w < time"
  shows "\<exists>now'. extractFrameInternal w time isMobile now = (Inl (InvalidTime time (duration w)), now')"
proof -
  from assms(1) obtain rs where rs: "videoAt w now = Some rs" "2 \<le> rs" by blast
  then show ?thesis
    using waitEnoughData_invalid [OF assms, of isMobile now]
    by (simp add: extractFrameInternal_def)
qed

lemma retryLoop_invalid:
  assumes "\<forall>t. \<exists>rs. videoAt w t = Some rs \<and> 2 \<le> rs" and "time < 0 \<or> duration w < time"
    and "attempt \<le> n" and "k = n - attempt"
  shows "\<exists>now'. retryLoop w time isMobile n attempt lastError warned now =
           (Inl (RetriesExhausted time n (InvalidTime time (duration w))), now',
            warned @ replicate (Suc k) (InvalidTime time (duration w)))"
  using assms(3,4)
proof (induction k arbitrary: attempt lastError warned now)
  case 0
  then have a: "attempt = n" by simp
  obtain now' where i: "extractFrameInternal w time isMobile now = (Inl (InvalidTime time (duration w)), now')"
    using extractFrameInternal_invalid [OF assms(1,2)] by blast
  have "retryLoop w time isMobile n (n + 1) (Some (InvalidTime time (duration w)))
          (warned @ [InvalidTime time (duration w)]) now'
        = (Inl (RetriesExhausted time n (InvalidTime time (duration w))), now',
           warned @ [InvalidTime time (duration w)])"
    by (subst retryLoop.simps) (simp add: retriesFailed_def)
  then show ?case
    unfolding a by (subst retryLoop.simps) (simp add: i)
next
  case (Suc k)
  then have a: "attempt < n" "attempt + 1 \<le> n" "k = n - (attempt + 1)" by simp_all
  obtain now' where i: "extractFrameInternal w time isMobile now = (Inl (InvalidTime time (duration w)), now')"
    using extractFrameInternal_invalid [OF assms(1,2)] by blast
  let ?now1 = "now' + (if isMobile then 1000 else 500) * 2 ^ (attempt - 1)"
  from assms(1) obtain rs where rs: "videoAt w ?now1 = Some rs" "2 \<le> rs" by blast
  from Suc.IH [OF a(2,3), of "Some (InvalidTime time (duration w))"
      "warned @ [InvalidTime time (duration w)]" ?now1]
  obtain now2 where "retryLoop w time isMobile n (attempt + 1) (Some (InvalidTime time (duration w)))
        (warned @ [InvalidTime time (duration w)]) ?now1 =
        (Inl (RetriesExhausted time n (InvalidTime time (duration w))), now2,
         (warned @ [InvalidTime time (duration w)]) @ replicate (Suc k) (InvalidTime time (duration w)))"
    by blast
  then show ?case
    using a(1) rs by (subst retryLoop.simps) (simp add: i Let_def)
qed

lemma ready_attempt_invalid:
  assumes "\<forall>t. \<exists>rs. videoAt w t = Some rs \<and> 4 \<le> rs" and "time < 0 \<or> duration w < time"
  shows "extractFrameInternal w time isMobile now = (Inl (InvalidTime time (duration w)), now)"
proof -
  from assms(1) obtain rs where rs: "videoAt w now = Some rs" "4 \<le> rs" by blast
  then show ?thesis
    using assms(2)
    by (simp add: extractFrameInternal_def waitEnoughData_def checkTimeAndSeek_invalid)
qed

lemma retryLoop_backoff:
  assumes "\<forall>t. \<exists>rs. videoAt w t = Some rs \<and> 4 \<le> rs" and "time < 0 \<or> duration w < time"
    and "1 \<le> attempt" and "attempt \<le> n" and "k = n - attempt"
  shows "fst (snd (retryLoop w time isMobile n attempt lastError warned now)) =
           now + (if isMobile then 1000 else 500) * (2 ^ (n - 1) - 2 ^ (attempt - 1))"
  using assms(3,4,5)
proof (induction k arbitrary: attempt lastError warned now)
  case 0
  then have a: "attempt = n" by simp
  have "retryLoop w time isMobile n (n + 1) (Some (InvalidTime time (duration w)))
          (warned @ [InvalidTime time (duration w)]) now
        = (Inl (RetriesExhausted time n (InvalidTime time (duration w))), now,
           warned @ [InvalidTime time (duration w)])"
    by (subst retryLoop.simps) (simp add: retriesFailed_def)
  then show ?case
    unfolding a by (subst retryLoop.simps) (simp add: ready_attempt_invalid [OF assms(1,2)])
next
  case (Suc k)
  then have a: "attempt < n" "1 \<le> attempt + 1" "attempt + 1 \<le> n" "k = n - (attempt + 1)"
    by simp_all
  let ?base = "(if isMobile then 1000 else 500) :: rat"
  let ?now1 = "now + ?base * 2 ^ (attempt - 1)"
  from assms(1) obtain rs where rs: "videoAt w ?now1 = Some rs" "4 \<le> rs" by blast
  have ih: "fst (snd (retryLoop w time isMobile n (attempt + 1) (Some (InvalidTime time (duration w)))
        (warned @ [InvalidTime time (duration w)]) ?now1)) =
      ?now1 + ?base * (2 ^ (n - 1) - 2 ^ (attempt + 1 - 1))"
    by (rule Suc.IH [OF a(2,3,4)])
  have p: "(2::rat) ^ attempt = 2 * 2 ^ (attempt - 1)"
    using Suc.prems(1) by (cases attempt) simp_all
  have e: "retryLoop w time isMobile n attempt lastError warned now =
        retryLoop w time isMobile n (attempt + 1) (Some (InvalidTime time (duration w)))
          (warned @ [InvalidTime time (duration w)]) ?now1"
    using a(1) rs
    by (subst retryLoop.simps) (simp add: ready_attempt_invalid [OF assms(1,2)] Let_def)
  have "fst (snd (retryLoop w time isMobile n attempt lastError warned now)) =
        ?now1 + ?base * (2 ^ (n - 1) - 2 ^ attempt)"
    unfolding e ih by simp
  also have "\<dots> = now + ?base * (2 ^ (n - 1) - 2 ^ (attempt - 1))"
    unfolding p by (simp add: algebra_simps)
  finally show ?case .
qed

text \<open>
  On a source that stays fully loaded every attempt fails at once, so the time the
  retried request takes is the sum of the back-off delays: \<open>500 * (2^(n-1) - 1)\<close> ms for
  \<open>n\<close> attempts, with 1000 in place of 500 for a mobile device.
\<close>

lemma invalid_time_backoff:
  assumes "\<forall>t. \<exists>rs. videoAt w t = Some rs \<and> 4 \<le> rs"
    and "time < 0 \<or> duration w < time" and "0 < maxRetries"
  shows "fst (snd (extractFrameWithRetry w time maxRetries isMobile now)) =
           now + (if isMobile then 1000 else 500)
                 * (2 ^ ((if isMobile then max maxRetries 5 else maxRetries) - 1) - 1)"
proof -
  let ?n = "if isMobile then max maxRetries 5 else maxRetries"
  have n: "1 \<le> ?n" using assms(3) by (auto simp: max_def)
  have "fst (snd (retryLoop w time isMobile ?n 1 None [] now)) =
          now + (if isMobile then 1000 else 500) * (2 ^ (?n - 1) - 2 ^ (1 - 1))"
    using assms(1,2) _ n refl by (rule retryLoop_backoff) simp
  then show ?thesis
    by (simp add: extractFrameWithRetry_def Let_def)
qed

text \<open>
  Claim C3, as amended. For a source whose video element stays present with
  \<open>readyState\<close> at least 2 and a timestamp below 0 or above the duration, every sampling
  attempt fails with the out-of-range error; the retry wrapper treats that error like any
  other: with \<open>maxRetries > 0\<close> it makes all its attempts (\<open>maxRetries\<close>, or
  \<open>max maxRetries 5\<close> on a mobile device), each failing the same way, and then fails with
  the error that wraps the timestamp, the number of attempts and the last out-of-range
  error.
\<close>

theorem invalid_time_is_retried:
  assumes "\<forall>t. \<exists>rs. videoAt w t = Some rs \<and> 2 \<le> rs"
    and "time < 0 \<or> duration w < time" and "0 < maxRetries"
  shows "fst (extractFrameInternal w time isMobile now) = Inl (InvalidTime time (duration w))
       \<and> fst (extractFrameWithRetry w time maxRetries isMobile now) =
           Inl (RetriesExhausted time (if isMobile then max maxRetries 5 else maxRetries)
                  (InvalidTime time (duration w)))
       \<and> snd (snd (extractFrameWithRetry w time maxRetries isMobile now)) =
           replicate (if isMobile then max maxRetries 5 else maxRetries) (InvalidTime time (duration w))"
proof -
  let ?n = "if isMobile then max maxRetries 5 else maxRetries"
  have n: "1 \<le> ?n" using assms(3) by (auto simp: max_def)
  obtain now' where "extractFrameInternal w time isMobile now = (Inl (InvalidTime time (duration w)), now')"
    using extractFrameInternal_invalid [OF assms(1,2)] by blast
  moreover obtain now2 where "retryLoop w time isMobile ?n 1 None [] now =
      (Inl (RetriesExhausted time ?n (InvalidTime time (duration w))), now2,
       [] @ replicate (Suc (?n - 1)) (InvalidTime time (duration w)))"
    using retryLoop_invalid [OF assms(1,2) n refl] by blast
  ultimately show ?thesis
    using n by (simp add: extractFrameWithRetry_def Let_def del: replicate_Suc)
qed

theorem invalid_time_is_retried_witness:
  "fst (extractFrameInternal (readyWorld image2x2) (-1) False 0) = Inl (InvalidTime (-1) 10)
   \<and> fst (extractFrameWithRetry (readyWorld image2x2) (-1) 3 False 0) =
        Inl (RetriesExhausted (-1) 3 (InvalidTime (-1) 10))
   \<and> snd (snd (extractFrameWithRetry (readyWorld image2x2) (-1) 3 False 0)) =
        [InvalidTime (-1) 10, InvalidTime (-1) 10, InvalidTime (-1) 10]"
proof -
  have h: "\<forall>t. \<exists>rs. videoAt (readyWorld image2x2) t = Some rs \<and> 2 \<le> rs"
    "(-1 :: rat) < 0 \<or> duration (readyWorld image2x2) < -1" "0 < (3::nat)"
    by (simp_all add: readyWorld_def)
  show ?thesis
    using invalid_time_is_retried [OF h, of False 0]
    by (simp add: readyWorld_def numeral_3_eq_3)
qed

text \<open>
  Claim C3 as stated fails: on a fully loaded source of 10 s, a request at -1 s is
  attempted three times, and what surfaces is the wrapping error, not the out-of-range
  error.
\<close>

theorem invalid_time_not_surfaced_counterexample:
  "fst (extractFrameWithRetry (readyWorld image2x2) (-1) 3 False 0) \<noteq> Inl (InvalidTime (-1) 10)
   \<and> length (snd (snd (extractFrameWithRetry (readyWorld image2x2) (-1) 3 False 0))) = 3"
proof -
  have i: "extractFrameInternal (readyWorld image2x2) (-1) False t = (Inl (InvalidTime (-1) 10), t)" for t
    by (simp add: extractFrameInternal_def waitEnoughData_def checkTimeAndSeek_def readyWorld_def)
  have v: "videoAt (readyWorld image2x2) t = Some 4" for t
    by (simp add: readyWorld_def)
  have "extractFrameWithRetry (readyWorld image2x2) (-1) 3 False 0 =
          (Inl (RetriesExhausted (-1) 3 (InvalidTime (-1) 10)), 1500,
           [InvalidTime (-1) 10, InvalidTime (-1) 10, InvalidTime (-1) 10])"
    unfolding extractFrameWithRetry_def Let_def
    apply (subst retryLoop.simps, simp add: i v)
    apply (subst retryLoop.simps, simp add: i v)
    apply (subst retryLoop.simps, simp add: i v)
    apply (subst retryLoop.simps, simp add: retriesFailed_def)
    done
  then show ?thesis by simp
qed

section \<open>Properties of precomputed playback\<close>

lemma showFrame_fields:
  "frames (showFrame r) = frames r" "isPlaying (showFrame r) = isPlaying r"
  "isRealtime (showFrame r) = isRealtime r" "startTime (showFrame r) = startTime r"
  "frameDelay (showFrame r) = frameDelay r" "hasVideoProcessor (showFrame r) = hasVideoProcessor r"
  "audioCalls (showFrame r) = audioCalls r" "fps (showFrame r) = fps r"
  "currentFrame (showFrame r) = currentFrame r"
  by (simp_all add: showFrame_def split: option.splits)

lemma showFrame_container: "container r = Some c \<Longrightarrow> \<exists>c'. container (showFrame r) = Some c'"
  by (simp add: showFrame_def split: option.splits)

lemma advanceFrame_fields:
  "frames (advanceFrame r now) = frames r" "isPlaying (advanceFrame r now) = isPlaying r"
  "isRealtime (advanceFrame r now) = isRealtime r"
  "frameDelay (advanceFrame r now) = frameDelay r"
  "hasVideoProcessor (advanceFrame r now) = hasVideoProcessor r"
  "container (advanceFrame r now) = container r"
  by (simp_all add: advanceFrame_def callAudio_def Let_def)


lemma fl_minus: "fl (- x) = - fl x"
  by (simp add: fl_def Let_def)

lemma fl_pos_arg: "0 < fl x \<Longrightarrow> 0 < x"
proof (rule ccontr)
  assume p: "0 < fl x" and "\<not> 0 < x"
  then have "0 \<le> - x" by simp
  then have "0 \<le> fl (- x)" by (rule fl_nonneg)
  then show False using p by (simp add: fl_minus)
qed

lemma scaled_upper:
  assumes "0 < x"
  shows "x / 2 powi (ilog2 x - 52) \<le> 2 ^ 53"
proof -
  have p: "(0::rat) < 2 powi (ilog2 x - 52)" by (simp add: zero_less_power_int)
  have "(2::rat) powi (ilog2 x + 1) = 2 powi (ilog2 x - 52) * 2 powi 53"
    using power_int_add [of "2::rat" "ilog2 x - 52" 53] by (simp add: add.commute)
  then have "x \<le> 2 powi (ilog2 x - 52) * 2 ^ 53"
    using ilog2_bounds(2) [OF assms] by simp
  then show ?thesis
    using p by (simp add: pos_divide_le_eq mult.commute)
qed

text \<open>Below 300 the doubles are multiples of \<open>2^-44\<close>, so the largest one is \<open>300 - 2^-44\<close>.\<close>

lemma fl_below_300:
  assumes "0 < x" and "fl x < 300"
  shows "fl x \<le> 300 - 1 / 2 ^ 44"
proof -
  let ?E = "ilog2 x - 52"
  let ?m = "roundEven (x / 2 powi ?E)"
  have f: "fl x = of_int ?m * 2 powi ?E" by (rule fl_pos_eq [OF assms(1)])
  have "x / 2 powi ?E \<le> of_int (2 ^ 53)" using scaled_upper [OF assms(1)] by simp
  then have m: "?m \<le> 2 ^ 53" by (rule roundEven_le)
  show ?thesis
  proof (cases "- 44 \<le> ?E")
    case True
    let ?n = "nat (?E + 44)"
    have "(2::rat) powi ?E = 2 powi (?E + 44) * 2 powi (- 44)"
      using power_int_add [of "2::rat" "?E + 44" "- 44"] by simp
    also have "(2::rat) powi (?E + 44) = 2 ^ ?n"
      using True by (simp add: power_int_def)
    finally have e: "(2::rat) powi ?E = 2 ^ ?n / 2 ^ 44"
      by (simp add: power_int_minus field_simps)
    have g: "fl x = of_int (?m * 2 ^ ?n) / 2 ^ 44"
      unfolding f e by simp
    have "(of_int (?m * 2 ^ ?n) :: rat) / 2 ^ 44 < of_int (300 * 2 ^ 44) / 2 ^ 44"
      using assms(2) unfolding g by simp
    then have "(of_int (?m * 2 ^ ?n) :: rat) < of_int (300 * 2 ^ 44)"
      by (simp only: divide_less_cancel) simp
    then have "?m * 2 ^ ?n < 300 * 2 ^ 44" by (simp only: of_int_less_iff)
    then have "?m * 2 ^ ?n \<le> 300 * 2 ^ 44 - 1" by simp
    then have "(of_int (?m * 2 ^ ?n) :: rat) \<le> of_int (300 * 2 ^ 44 - 1)"
      by (simp only: of_int_le_iff)
    then have "(of_int (?m * 2 ^ ?n) :: rat) / 2 ^ 44 \<le> of_int (300 * 2 ^ 44 - 1) / 2 ^ 44"
      by (intro divide_right_mono) simp_all
    then show ?thesis unfolding g by simp
  next
    case False
    then have "?E \<le> - 45" by simp
    then have a: "(2::rat) powi ?E \<le> 2 powi (- 45)"
      by (intro power_int_increasing) simp_all
    have "(of_int ?m :: rat) \<le> of_int (2 ^ 53)" using m by (simp only: of_int_le_iff)
    then have b: "(of_int ?m :: rat) \<le> 2 ^ 53" by simp
    have "of_int ?m * 2 powi ?E \<le> 2 ^ 53 * (2::rat) powi (- 45)"
      using a b by (intro mult_mono) (simp_all add: zero_less_power_int less_imp_le)
    then show ?thesis unfolding f by (simp add: power_int_minus)
  qed
qed

lemma expectedFrameAt_start: "expectedFrameAt t0 d t0 = 0"
  by (simp add: expectedFrameAt_def fl_def)

lemma expectedFrameAt_reached:
  assumes "0 < d" and "n \<le> 2 ^ 53" and "of_nat n * d \<le> fl (now - start)"
  shows "int n \<le> expectedFrameAt start d now"
proof (cases "n = 0")
  case True
  have "0 \<le> fl (now - start)" using assms(3) True by simp
  then have "0 \<le> fl (now - start) / d" using assms(1) by simp
  then have "0 \<le> fl (fl (now - start) / d)" by (rule fl_nonneg)
  then show ?thesis using True by (simp add: expectedFrameAt_def)
next
  case False
  have q: "(of_int (int n) :: rat) \<le> fl (now - start) / d"
    using assms(1,3) by (simp add: pos_le_divide_eq)
  have "(0::rat) < of_int (int n)" using False by simp
  then have p: "0 < fl (now - start) / d" using q by linarith
  have "int n \<le> 2 ^ 53" using assms(2) by (metis of_nat_le_iff of_nat_numeral of_nat_power)
  then have "(of_int (int n) :: rat) \<le> fl (fl (now - start) / d)"
    using p q by (intro fl_ge_int) simp_all
  then show ?thesis by (simp add: expectedFrameAt_def le_floor_iff)
qed

lemma expectedFrameAt_example:
  assumes "200 \<le> fl (t1 - t0)" and "fl (t1 - t0) < 300"
  shows "expectedFrameAt t0 100 t1 = 2"
proof -
  let ?e = "fl (t1 - t0)"
  have "0 < ?e" using assms(1) by simp
  then have x: "0 < t1 - t0" by (rule fl_pos_arg)
  have e: "?e \<le> 300 - 1 / 2 ^ 44" by (rule fl_below_300 [OF x assms(2)])
  have q: "0 < ?e / 100" using assms(1) by simp
  have "(of_int 2 :: rat) \<le> ?e / 100" using assms(1) by simp
  then have lo: "(of_int 2 :: rat) \<le> fl (?e / 100)"
    using q by (intro fl_ge_int) simp_all
  have "?e / 100 \<le> (300 - 1 / 2 ^ 44) / 100" using e by simp
  also have "\<dots> \<le> of_int (3 * 2 ^ 51 - 1) * 2 powi (- 51)"
    by (simp add: power_int_minus)
  finally have "fl (?e / 100) \<le> of_int (3 * 2 ^ 51 - 1) * 2 powi (- 51)"
    using q by (intro fl_le) simp_all
  also have "\<dots> < (3::rat)" by (simp add: power_int_minus)
  finally have hi: "fl (?e / 100) < of_int 2 + 1" by simp
  show ?thesis
    unfolding expectedFrameAt_def using lo hi by (rule floor_unique)
qed

lemma advanceFrame_wraps:
  assumes "int (length (frames r)) \<le> expectedFrameAt (startTime r) (frameDelay r) now"
  shows "currentFrame (advanceFrame r now) = 0" "startTime (advanceFrame r now) = now"
    "audioCalls (advanceFrame r now) =
       (if hasVideoProcessor r then audioCalls r @ [PlayAudio] else audioCalls r)"
  using assms by (simp_all add: advanceFrame_def callAudio_def Let_def)

lemma advanceFrame_advances:
  assumes "expectedFrameAt (startTime r) (frameDelay r) now = k" and "k < int (length (frames r))"
  shows "currentFrame (advanceFrame r now) = k" "startTime (advanceFrame r now) = startTime r"
    "audioCalls (advanceFrame r now) =
       (if hasVideoProcessor r then audioCalls r @ [SyncAudio (fl (of_int k / fps r))]
        else audioCalls r)"
  using assms by (simp_all add: advanceFrame_def callAudio_def Let_def)

lemma render_playing:
  "container r \<noteq> None \<Longrightarrow> frames r \<noteq> [] \<Longrightarrow> isPlaying r \<Longrightarrow>
   render r now = advanceFrame (showFrame r) now"
  by (cases "container r") (simp_all add: render_def Let_def showFrame_fields)

lemma render_wraps:
  assumes "container r \<noteq> None" and "frames r \<noteq> []" and "isPlaying r" and "\<not> isRealtime r"
    and "int (length (frames r)) \<le> expectedFrameAt (startTime r) (frameDelay r) now"
  shows "infoCurrentFrame (getPlaybackInfo (render r now)) = 0
       \<and> startTime (render r now) = now
       \<and> audioCalls (render r now) = (if hasVideoProcessor r then audioCalls r @ [PlayAudio] else audioCalls r)"
proof -
  have "int (length (frames (showFrame r)))
      \<le> expectedFrameAt (startTime (showFrame r)) (frameDelay (showFrame r)) now"
    using assms(5) by (simp add: showFrame_fields)
  from advanceFrame_wraps [OF this] show ?thesis
    using assms(4)
    by (simp add: render_playing [OF assms(1-3)] getPlaybackInfo_def advanceFrame_fields showFrame_fields)
qed

lemma render_advances:
  assumes "container r \<noteq> None" and "frames r \<noteq> []" and "isPlaying r" and "\<not> isRealtime r"
    and "expectedFrameAt (startTime r) (frameDelay r) now = k"
    and "k < int (length (frames r))"
  shows "infoCurrentFrame (getPlaybackInfo (render r now)) = k
       \<and> startTime (render r now) = startTime r
       \<and> audioCalls (render r now) =
           (if hasVideoProcessor r then audioCalls r @ [SyncAudio (fl (of_int k / fps r))]
            else audioCalls r)"
proof -
  have "expectedFrameAt (startTime (showFrame r)) (frameDelay (showFrame r)) now = k"
    and "k < int (length (frames (showFrame r)))"
    using assms(5,6) by (simp_all add: showFrame_fields)
  from advanceFrame_advances [OF this] show ?thesis
    using assms(4)
    by (simp add: render_playing [OF assms(1-3)] getPlaybackInfo_def advanceFrame_fields showFrame_fields)
qed

lemma render_keeps:
  assumes "container r \<noteq> None" and "frames r \<noteq> []" and "isPlaying r"
  shows "container (render r now) \<noteq> None" "frames (render r now) = frames r"
    "isPlaying (render r now)" "isRealtime (render r now) = isRealtime r"
    "frameDelay (render r now) = frameDelay r"
    "hasVideoProcessor (render r now) = hasVideoProcessor r"
proof -
  from assms(1) obtain c where "container r = Some c" by auto
  from showFrame_container [OF this] show "container (render r now) \<noteq> None"
    by (auto simp: render_playing [OF assms] advanceFrame_fields)
  show "frames (render r now) = frames r"
    "isPlaying (render r now)" "isRealtime (render r now) = isRealtime r"
    "frameDelay (render r now) = frameDelay r"
    "hasVideoProcessor (render r now) = hasVideoProcessor r"
    using assms
    by (simp_all add: render_playing [OF assms] advanceFrame_fields showFrame_fields)
qed

lemma render_fps:
  assumes "container r \<noteq> None" and "frames r \<noteq> []" and "isPlaying r"
  shows "fps (render r now) = fps r"
  by (simp add: render_playing [OF assms] advanceFrame_def callAudio_def Let_def showFrame_fields)

lemma start_state:
  assumes "startPreprocessedPlayback r fs f t0 = Inr r0" and "0 < f"
  shows "container r0 \<noteq> None" "frames r0 = fs" "fs \<noteq> []" "isPlaying r0" "\<not> isRealtime r0"
    "frameDelay r0 = fl (1000 / f)" "startTime r0 = t0"
    "infoCurrentFrame (getPlaybackInfo r0) = 0"
    "hasVideoProcessor r0 = hasVideoProcessor r" "fps r0 = f"
proof -
  have c: "container r \<noteq> None" and n: "fs \<noteq> []"
    using assms(1) by (auto simp: startPreprocessedPlayback_def split: if_splits)
  let ?r1 = "callAudio PlayAudio (r\<lparr>isRealtime := False, frames := fs, fps := f,
                 frameDelay := fl (1000 / f),
                 totalDuration := fl (of_nat (length fs) / f), currentTime := 0,
                 currentFrame := 0, isPlaying := True, startTime := t0\<rparr>)"
  have r0: "r0 = render ?r1 t0"
    using assms c n by (simp add: startPreprocessedPlayback_def Let_def)
  have p: "container ?r1 \<noteq> None" "frames ?r1 \<noteq> []" "isPlaying ?r1" "\<not> isRealtime ?r1"
    "startTime ?r1 = t0" "frames ?r1 = fs" "frameDelay ?r1 = fl (1000 / f)"
    "hasVideoProcessor ?r1 = hasVideoProcessor r" "fps ?r1 = f"
    using c n by (simp_all add: callAudio_def)
  have k: "expectedFrameAt (startTime ?r1) (frameDelay ?r1) t0 = 0"
    unfolding p(5) by (rule expectedFrameAt_start)
  have l: "0 < int (length (frames ?r1))" using p(2) by simp
  note a = render_advances [OF p(1-4) k l]
  show "container r0 \<noteq> None" "frames r0 = fs" "fs \<noteq> []" "isPlaying r0" "\<not> isRealtime r0"
    "frameDelay r0 = fl (1000 / f)" "startTime r0 = t0"
    "infoCurrentFrame (getPlaybackInfo r0) = 0"
    "hasVideoProcessor r0 = hasVideoProcessor r" "fps r0 = f"
    unfolding r0 using a p n render_keeps [OF p(1-3), of t0] render_fps [OF p(1-3), of t0]
    by simp_all
qed

lemma renderTicks_snoc: "renderTicks r (ts @ [t]) = render (renderTicks r ts) t"
  by (induction ts arbitrary: r) simp_all

lemma renderTicks_before_end:
  assumes "container r \<noteq> None" and "frames r \<noteq> []" and "isPlaying r" and "\<not> isRealtime r"
    and "\<forall>t \<in> set ts. expectedFrameAt (startTime r) (frameDelay r) t < int (length (frames r))"
  shows "container (renderTicks r ts) \<noteq> None \<and> frames (renderTicks r ts) = frames r
       \<and> isPlaying (renderTicks r ts) \<and> \<not> isRealtime (renderTicks r ts)
       \<and> frameDelay (renderTicks r ts) = frameDelay r
       \<and> startTime (renderTicks r ts) = startTime r
       \<and> hasVideoProcessor (renderTicks r ts) = hasVideoProcessor r
       \<and> fps (renderTicks r ts) = fps r
       \<and> (ts \<noteq> [] \<longrightarrow> infoCurrentFrame (getPlaybackInfo (renderTicks r ts))
                          = expectedFrameAt (startTime r) (frameDelay r) (last ts))"
  using assms
proof (induction ts arbitrary: r rule: rev_induct)
  case Nil
  then show ?case by simp
next
  case (snoc t ts)
  let ?r = "renderTicks r ts"
  have ih: "container ?r \<noteq> None \<and> frames ?r = frames r
       \<and> isPlaying ?r \<and> \<not> isRealtime ?r
       \<and> frameDelay ?r = frameDelay r
       \<and> startTime ?r = startTime r
       \<and> hasVideoProcessor ?r = hasVideoProcessor r
       \<and> fps ?r = fps r"
    using snoc.IH [OF snoc.prems(1-4)] snoc.prems(5) by simp
  let ?k = "expectedFrameAt (startTime r) (frameDelay r) t"
  have kn: "?k < int (length (frames r))"
    using snoc.prems(5) by simp
  have ne: "frames ?r \<noteq> []" using ih snoc.prems(2) by simp
  have c: "container ?r \<noteq> None" and p: "isPlaying ?r" and nr: "\<not> isRealtime ?r"
    using ih by simp_all
  have k': "expectedFrameAt (startTime ?r) (frameDelay ?r) t = ?k"
    and kn': "?k < int (length (frames ?r))"
    using ih kn by simp_all
  note a = render_advances [OF c ne p nr k' kn']
  note k = render_keeps [OF c ne p, of t] render_fps [OF c ne p, of t]
  show ?case
    unfolding renderTicks_snoc using a k ih by simp
qed

text \<open>
  Claim C8. \<open>render()\<close> reaches the end of the frame list when \<open>expectedFrame\<close>, the floor
  of the double \<open>elapsed / frameDelay\<close>, is at least the number of frames. After
  \<open>startPreprocessedPlayback\<close> at clock \<open>t0\<close> with a positive frame rate and a video
  processor attached, and after any animation frames that fire before the end is reached:
  an animation frame that reaches the end sets \<open>currentFrame\<close> back to 0, restarts the time
  origin and calls \<open>playAudio\<close> again; one that does not reach it shows the expected
  frame, keeps the time origin and calls \<open>syncAudio\<close>. The end is reached as soon as the
  measured elapsed time \<open>now - t0\<close> (a double) is at least the number of frames times
  \<open>frameDelay\<close>, the double \<open>1000 / fps\<close>. For 3 frames at 10 frames per second,
  \<open>frameDelay\<close> is 100: \<open>getPlaybackInfo().currentFrame\<close> is 2 after a frame fired with an
  elapsed time from 200 to below 300 ms, and 0 after the next one at 300 ms or later.
\<close>

theorem precomputed_playback_loops:
  "(startPreprocessedPlayback r fs f t0 = Inr r0 \<and> 0 < f \<and> hasVideoProcessor r
      \<and> (\<forall>t \<in> set ts. expectedFrameAt t0 (fl (1000 / f)) t < int (length fs))
    \<longrightarrow> infoTotalFrames (getPlaybackInfo (renderTicks r0 ts)) = int (length fs)
      \<and> (int (length fs) \<le> expectedFrameAt t0 (fl (1000 / f)) now
         \<longrightarrow> infoCurrentFrame (getPlaybackInfo (render (renderTicks r0 ts) now)) = 0
           \<and> startTime (render (renderTicks r0 ts) now) = now
           \<and> audioCalls (render (renderTicks r0 ts) now) =
               audioCalls (renderTicks r0 ts) @ [PlayAudio])
      \<and> (expectedFrameAt t0 (fl (1000 / f)) now < int (length fs)
         \<longrightarrow> infoCurrentFrame (getPlaybackInfo (render (renderTicks r0 ts) now)) =
               expectedFrameAt t0 (fl (1000 / f)) now
           \<and> startTime (render (renderTicks r0 ts) now) = t0
           \<and> audioCalls (render (renderTicks r0 ts) now) =
               audioCalls (renderTicks r0 ts)
                 @ [SyncAudio (fl (of_int (expectedFrameAt t0 (fl (1000 / f)) now) / f))])
      \<and> (length fs \<le> 2 ^ 53 \<and> of_nat (length fs) * fl (1000 / f) \<le> fl (now - t0)
         \<longrightarrow> int (length fs) \<le> expectedFrameAt t0 (fl (1000 / f)) now))
   \<and> (startPreprocessedPlayback r [f0, f1, f2] 10 t0 = Inr r0 \<and> hasVideoProcessor r
      \<and> 200 \<le> fl (t1 - t0) \<and> fl (t1 - t0) < 300 \<and> 300 \<le> fl (t2 - t0)
    \<longrightarrow> frameDelay r0 = 100
      \<and> infoCurrentFrame (getPlaybackInfo r0) = 0
      \<and> infoCurrentFrame (getPlaybackInfo (render r0 t1)) = 2
      \<and> infoCurrentFrame (getPlaybackInfo (render (render r0 t1) t2)) = 0
      \<and> audioCalls (render (render r0 t1) t2) = audioCalls (render r0 t1) @ [PlayAudio])"
proof -
  have general:
    "infoTotalFrames (getPlaybackInfo (renderTicks r0 ts)) = int (length fs)
      \<and> (int (length fs) \<le> expectedFrameAt t0 (fl (1000 / f)) now
         \<longrightarrow> infoCurrentFrame (getPlaybackInfo (render (renderTicks r0 ts) now)) = 0
           \<and> startTime (render (renderTicks r0 ts) now) = now
           \<and> audioCalls (render (renderTicks r0 ts) now) =
               audioCalls (renderTicks r0 ts) @ [PlayAudio])
      \<and> (expectedFrameAt t0 (fl (1000 / f)) now < int (length fs)
         \<longrightarrow> infoCurrentFrame (getPlaybackInfo (render (renderTicks r0 ts) now)) =
               expectedFrameAt t0 (fl (1000 / f)) now
           \<and> startTime (render (renderTicks r0 ts) now) = t0
           \<and> audioCalls (render (renderTicks r0 ts) now) =
               audioCalls (renderTicks r0 ts)
                 @ [SyncAudio (fl (of_int (expectedFrameAt t0 (fl (1000 / f)) now) / f))])
      \<and> (length fs \<le> 2 ^ 53 \<and> of_nat (length fs) * fl (1000 / f) \<le> fl (now - t0)
         \<longrightarrow> int (length fs) \<le> expectedFrameAt t0 (fl (1000 / f)) now)"
    if st: "startPreprocessedPlayback r fs f t0 = Inr r0" and f: "0 < f" and v: "hasVideoProcessor r"
      and ts: "\<forall>t \<in> set ts. expectedFrameAt t0 (fl (1000 / f)) t < int (length fs)"
    for r fs f t0 r0 ts now
  proof -
    note s = start_state [OF st f]
    have ne: "frames r0 \<noteq> []" using s(2,3) by simp
    have ts': "\<forall>t \<in> set ts. expectedFrameAt (startTime r0) (frameDelay r0) t
                 < int (length (frames r0))"
      using ts s(2,6,7) by simp
    let ?r = "renderTicks r0 ts"
    note b = renderTicks_before_end [OF s(1) ne s(4,5) ts']
    have c: "container ?r \<noteq> None" and n: "frames ?r \<noteq> []" and p: "isPlaying ?r"
      and nr: "\<not> isRealtime ?r" and hv: "hasVideoProcessor ?r"
      using b ne s(9) v by simp_all
    have e: "expectedFrameAt (startTime ?r) (frameDelay ?r) now = expectedFrameAt t0 (fl (1000 / f)) now"
      and l: "length (frames ?r) = length fs" and fp: "fps ?r = f" and st0: "startTime ?r = t0"
      using b s(2,6,7,10) by simp_all
    have "infoTotalFrames (getPlaybackInfo ?r) = int (length fs)"
      using nr l by (simp add: getPlaybackInfo_def)
    moreover have "infoCurrentFrame (getPlaybackInfo (render ?r now)) = 0
           \<and> startTime (render ?r now) = now
           \<and> audioCalls (render ?r now) = audioCalls ?r @ [PlayAudio]"
      if "int (length fs) \<le> expectedFrameAt t0 (fl (1000 / f)) now"
    proof -
      have "int (length (frames ?r)) \<le> expectedFrameAt (startTime ?r) (frameDelay ?r) now"
        using that unfolding e l .
      from render_wraps [OF c n p nr this] show ?thesis using hv by simp
    qed
    moreover have "infoCurrentFrame (getPlaybackInfo (render ?r now)) =
               expectedFrameAt t0 (fl (1000 / f)) now
           \<and> startTime (render ?r now) = t0
           \<and> audioCalls (render ?r now) =
               audioCalls ?r @ [SyncAudio (fl (of_int (expectedFrameAt t0 (fl (1000 / f)) now) / f))]"
      if "expectedFrameAt t0 (fl (1000 / f)) now < int (length fs)"
    proof -
      have "expectedFrameAt t0 (fl (1000 / f)) now < int (length (frames ?r))"
        using that unfolding l .
      from render_advances [OF c n p nr e this] show ?thesis using hv fp st0 by simp
    qed
    moreover have "int (length fs) \<le> expectedFrameAt t0 (fl (1000 / f)) now"
      if "length fs \<le> 2 ^ 53 \<and> of_nat (length fs) * fl (1000 / f) \<le> fl (now - t0)"
    proof -
      have "0 < fl (1000 / f)" using f by (intro fl_pos) simp
      then show ?thesis using that by (intro expectedFrameAt_reached) simp_all
    qed
    ultimately show ?thesis by blast
  qed
  have example:
    "frameDelay r0 = 100
      \<and> infoCurrentFrame (getPlaybackInfo r0) = 0
      \<and> infoCurrentFrame (getPlaybackInfo (render r0 t1)) = 2
      \<and> infoCurrentFrame (getPlaybackInfo (render (render r0 t1) t2)) = 0
      \<and> audioCalls (render (render r0 t1) t2) = audioCalls (render r0 t1) @ [PlayAudio]"
    if st: "startPreprocessedPlayback r [f0, f1, f2] 10 t0 = Inr r0" and v: "hasVideoProcessor r"
      and d: "200 \<le> fl (t1 - t0)" "fl (t1 - t0) < 300" "300 \<le> fl (t2 - t0)"
  proof -
    have f: "(0::rat) < 10" by simp
    have fd: "fl (1000 / 10) = 100" using fl_values(3) by simp
    note s = start_state [OF st f]
    have e1: "expectedFrameAt t0 (fl (1000 / 10)) t1 = 2"
      unfolding fd by (rule expectedFrameAt_example [OF d(1,2)])
    have ts: "\<forall>t \<in> set [t1]. expectedFrameAt t0 (fl (1000 / 10)) t < int (length [f0, f1, f2])"
      using e1 by simp
    have "of_nat (length [f0, f1, f2]) * (100::rat) \<le> fl (t2 - t0)" using d(3) by simp
    then have e2: "int (length [f0, f1, f2]) \<le> expectedFrameAt t0 (fl (1000 / 10)) t2"
      unfolding fd by (intro expectedFrameAt_reached) simp_all
    have e0: "expectedFrameAt t0 (fl (1000 / 10)) t1 < int (length [f0, f1, f2])"
      using e1 by simp
    have "infoCurrentFrame (getPlaybackInfo (render r0 t1)) = 2"
      using general [OF st f v, of "[]" t1] e0 e1 by simp
    moreover have "infoCurrentFrame (getPlaybackInfo (render (render r0 t1) t2)) = 0
      \<and> audioCalls (render (render r0 t1) t2) = audioCalls (render r0 t1) @ [PlayAudio]"
      using general [OF st f v ts, of t2] e2 by simp
    ultimately show ?thesis
      using s(6,8) fd by simp
  qed
  show ?thesis
    using general [of r fs f t0 r0 ts now] example by blast
qed


lemma start_ok:
  "container r \<noteq> None \<Longrightarrow> fs \<noteq> [] \<Longrightarrow>
   startPreprocessedPlayback r fs f t0 = Inr (projr (startPreprocessedPlayback r fs f t0))"
  by (simp add: startPreprocessedPlayback_def Let_def)

text \<open>
  Three frames at 10 frames per second, ticks at 250 ms and at 300 ms; and 15 frames at
  30 frames per second with a tick at 500 ms, where \<open>frameDelay\<close> is the double
  \<open>33.333333333333336\<close>, the quotient \<open>500 / frameDelay\<close> rounds to
  \<open>14.999999999999998\<close> and the end is not reached yet.
\<close>

theorem precomputed_playback_loops_witness:
  "infoCurrentFrame (getPlaybackInfo (render
      (projr (startPreprocessedPlayback (initRenderer True) [''a'', ''b'', ''c''] 10 0)) 250)) = 2
   \<and> infoCurrentFrame (getPlaybackInfo (render (render
      (projr (startPreprocessedPlayback (initRenderer True) [''a'', ''b'', ''c''] 10 0)) 250) 300)) = 0
   \<and> startTime (render (render
      (projr (startPreprocessedPlayback (initRenderer True) [''a'', ''b'', ''c''] 10 0)) 250) 300) = 300
   \<and> expectedFrameAt 0 (fl (1000 / 30)) 500 = 14
   \<and> infoCurrentFrame (getPlaybackInfo (render
      (projr (startPreprocessedPlayback (initRenderer True) (replicate 15 ''a'') 30 0)) 500)) = 14
   \<and> startTime (render
      (projr (startPreprocessedPlayback (initRenderer True) (replicate 15 ''a'') 30 0)) 500) = 0"
proof -
  let ?r = "initRenderer True"
  let ?s3 = "startPreprocessedPlayback ?r [''a'', ''b'', ''c''] 10 0"
  let ?s15 = "startPreprocessedPlayback ?r (replicate 15 ''a'') 30 0"
  have c: "container ?r \<noteq> None" and hv: "hasVideoProcessor ?r"
    by (simp_all add: initRenderer_def)
  have s3: "?s3 = Inr (projr ?s3)"
    using c by (rule start_ok) simp
  have s15: "?s15 = Inr (projr ?s15)"
    using c by (rule start_ok) simp
  have v: "fl 250 = 250" "fl 300 = 300"
    by code_simp+
  have v14: "expectedFrameAt 0 (fl (1000 / 30)) 500 = 14"
    by code_simp
  have v2: "expectedFrameAt 0 (fl 100) 250 = 2"
    by code_simp
  have h3g: "?s3 = Inr (projr ?s3) \<and> (0::rat) < 10 \<and> hasVideoProcessor ?r
      \<and> (\<forall>t \<in> set [250]. expectedFrameAt 0 (fl (1000 / 10)) t < int (length [''a'', ''b'', ''c'']))"
    by (intro conjI s3 hv) (simp_all add: v2)
  have reached: "length [''a'', ''b'', ''c''] \<le> 2 ^ 53
      \<and> of_nat (length [''a'', ''b'', ''c'']) * fl (1000 / 10) \<le> fl (300 - 0)"
    using fl_values(3) by (simp add: v)
  have h3: "?s3 = Inr (projr ?s3) \<and> hasVideoProcessor ?r
      \<and> 200 \<le> fl (250 - 0) \<and> fl (250 - 0) < 300 \<and> 300 \<le> fl (300 - 0)"
    by (intro conjI s3 hv) (simp_all add: v)
  have h15: "?s15 = Inr (projr ?s15) \<and> (0::rat) < 30 \<and> hasVideoProcessor ?r
      \<and> (\<forall>t \<in> set []. expectedFrameAt 0 (fl (1000 / 30)) t < int (length (replicate 15 ''a'')))"
    by (intro conjI s15 hv) simp_all
  have k15: "expectedFrameAt 0 (fl (1000 / 30)) 500 < int (length (replicate 15 ''a''))"
    unfolding v14 by simp
  note A = precomputed_playback_loops
             [where r = ?r and ?f0.0 = "''a''" and ?f1.0 = "''b''" and ?f2.0 = "''c''"
                and ?t0.0 = 0 and ?r0.0 = "projr ?s3" and ?t1.0 = 250 and ?t2.0 = 300,
              THEN conjunct2, THEN mp, OF h3]
  note B = precomputed_playback_loops
             [where r = ?r and fs = "replicate 15 ''a''" and f = 30 and ?t0.0 = 0
                and ?r0.0 = "projr ?s15" and ts = "[]" and now = 500,
              THEN conjunct1, THEN mp, OF h15,
              THEN conjunct2, THEN conjunct2, THEN conjunct1, THEN mp, OF k15]
  note G = precomputed_playback_loops
             [where r = ?r and fs = "[''a'', ''b'', ''c'']" and f = 10 and ?t0.0 = 0
                and ?r0.0 = "projr ?s3" and ts = "[250]" and now = 300,
              THEN conjunct1, THEN mp, OF h3g]
  note G4 = G [THEN conjunct2, THEN conjunct2, THEN conjunct2, THEN mp, OF reached]
  note G2 = G [THEN conjunct2, THEN conjunct1, THEN mp, OF G4]
  show ?thesis
    using A B G2 v14 by simp
qed

end
